theory Spec2Isabelle
  imports Main "HOL-Library.AList" "HOL-Library.List_Lexorder" "HOL-Library.Char_ord"
begin

section \<open>Data model of \<open>flax/nnx/graph.py\<close>\<close>

text \<open>
  Python objects with identity (instances of registered graph-node types and
  \<open>Variable\<close>s) live in a heap; a reference is the object's address, which is what
  \<open>id(x)\<close> and \<open>x is y\<close> observe.  Immutable containers handled by the pytree registry,
  arrays and every other Python value are plain values.
\<close>

type_synonym ref = nat
type_synonym key = string
type_synonym path = "key list"
type_synonym metadata = "(string \<times> int) list"

text \<open>\<open>type(x)\<close>, tagged with the registry that knows the type: \<open>GRAPH_REGISTRY\<close>,
  the pytree registries, subclasses of \<open>Variable\<close>, or none of them.\<close>

datatype pytype = GraphType string | PytreeType string | VariableType string | PlainType

datatype val =
    Ref ref
  | Pytree string "(key \<times> val) list" string
  | Array "int list"
  | Const int

text \<open>A graph node carries its type name and its children in the canonical order of the
  type's registered \<open>flatten\<close>; a \<open>Variable\<close> carries its type name, \<open>raw_value\<close> and
  \<open>_var_metadata\<close>.\<close>

datatype obj =
    GraphNode string "(key \<times> val) list"
  | Variable string val metadata

type_synonym heap = "obj list"

text \<open>\<open>NodeRef\<close>, \<open>NodeDef\<close> (type, index, outer\_index, attributes, metadata),
  \<open>VariableDef\<close> (type, index, outer\_index, metadata) and \<open>Static\<close>.\<close>

datatype graphdef =
    NodeRef pytype int
  | NodeDef pytype int "int option" "(key \<times> graphdef) list" string
  | VariableDef pytype int "int option" metadata
  | Static val

text \<open>A leaf is a \<open>VariableState\<close> (type, value, metadata) or any other value: the raw
  value, or the \<open>Variable\<close> itself when \<open>return_variables\<close> is set.\<close>

datatype leaf = VariableState string val metadata | Leaf val

text \<open>The three forms of \<open>state\<close> that \<open>unflatten\<close> accepts.  A \<open>State\<close> is the nested
  mapping built by \<open>State.from_flat_path\<close>, kept here as its (path, leaf) pairs.\<close>

datatype state = State "(path \<times> leaf) list" | FlatState "(path \<times> leaf) list" | LeafList "leaf list"

text \<open>Modelled from the spec: \<open>RefMap = dict\<close>, so a lookup compares keys with the
  \<open>__hash__\<close> and \<open>__eq__\<close> of the graph-node classes and of \<open>Variable\<close>, which are defined
  outside this file.  "Two Graph Nodes are never equal by value, only by reference" and
  "leaves have reference identity": the key of an object is its reference, and two keys
  are equal when they are the same address.  The dict keeps its insertion order; the
  inverse dicts go from indexes to objects.\<close>

type_synonym refmap = "(val \<times> int) list"
type_synonym indexmap = "(int \<times> val) list"

datatype node_impl = GraphNodeImpl | PytreeNodeImpl

datatype error =
    UnsupportedType
  | ArrayLeaf "path option"
  | IndexAlreadyUsed int
  | NotEnoughLeaves
  | ExtraLeaves nat
  | KeyError int
  | ExpectedVariable key
  | TypeMismatch pytype pytype
  | AssertionError
  | ExpectedNodeDef
  | CannotMergeWithoutRefIndex

section \<open>The node type registry\<close>

fun lookup :: "heap \<Rightarrow> ref \<Rightarrow> obj option" where
  "lookup h a = (if a < length h then Some (h ! a) else None)"

fun is_variable :: "heap \<Rightarrow> val \<Rightarrow> bool" where
  "is_variable h (Ref a) = (case lookup h a of Some (Variable _ _ _) \<Rightarrow> True | _ \<Rightarrow> False)"
| "is_variable h _ = False"

fun is_array :: "val \<Rightarrow> bool" where
  "is_array (Array _) = True"
| "is_array _ = False"

fun type_of :: "heap \<Rightarrow> val \<Rightarrow> pytype" where
  "type_of h (Ref a) =
     (case lookup h a of
        Some (GraphNode ty _) \<Rightarrow> GraphType ty
      | Some (Variable ty _ _) \<Rightarrow> VariableType ty
      | None \<Rightarrow> PlainType)"
| "type_of h (Pytree ty _ _) = PytreeType ty"
| "type_of h _ = PlainType"

fun type_name :: "pytype \<Rightarrow> string" where
  "type_name (GraphType n) = n"
| "type_name (PytreeType n) = n"
| "type_name (VariableType n) = n"
| "type_name PlainType = []"

fun get_node_impl :: "heap \<Rightarrow> val \<Rightarrow> node_impl option" where
  "get_node_impl h (Ref a) =
     (case lookup h a of Some (GraphNode _ _) \<Rightarrow> Some GraphNodeImpl | _ \<Rightarrow> None)"
| "get_node_impl h (Pytree _ _ _) = Some PytreeNodeImpl"
| "get_node_impl h _ = None"

fun get_node_impl_for_type :: "pytype \<Rightarrow> node_impl option" where
  "get_node_impl_for_type (PytreeType _) = Some PytreeNodeImpl"
| "get_node_impl_for_type (GraphType _) = Some GraphNodeImpl"
| "get_node_impl_for_type _ = None"

text \<open>Modelled from the spec: the callbacks a graph-node type registers (\<open>flatten\<close>,
  \<open>set_key\<close>, \<open>create_empty\<close>, \<open>clear\<close>, \<open>init\<close>) are defined by the registering class,
  outside this file.  A graph node "supports get/set/remove of named children, creation of
  an empty instance from saved metadata, in-place clearing, and bulk initialization from a
  sequence of (key, child) pairs"; its \<open>flatten\<close> decomposes it "into (key, child) pairs
  in the type's canonical order" with the type as metadata.\<close>

fun node_flatten :: "heap \<Rightarrow> val \<Rightarrow> (key \<times> val) list \<times> string" where
  "node_flatten h (Ref a) =
     (case lookup h a of Some (GraphNode ty attrs) \<Rightarrow> (attrs, ty) | _ \<Rightarrow> ([], []))"
| "node_flatten h (Pytree ty items aux) = (items, aux)"
| "node_flatten h _ = ([], [])"

fun create_empty :: "heap \<Rightarrow> string \<Rightarrow> val \<times> heap" where
  "create_empty h metadata = (Ref (length h), h @ [GraphNode metadata []])"

fun node_clear :: "heap \<Rightarrow> val \<Rightarrow> heap" where
  "node_clear h (Ref a) =
     (case lookup h a of Some (GraphNode ty _) \<Rightarrow> h[a := GraphNode ty []] | _ \<Rightarrow> h)"
| "node_clear h _ = h"

fun node_init :: "heap \<Rightarrow> val \<Rightarrow> (key \<times> val) list \<Rightarrow> heap" where
  "node_init h (Ref a) children =
     (case lookup h a of
        Some (GraphNode ty attrs) \<Rightarrow> h[a := GraphNode ty children]
      | _ \<Rightarrow> h)"
| "node_init h _ children = h"

fun set_key :: "heap \<Rightarrow> val \<Rightarrow> key \<Rightarrow> val \<Rightarrow> heap" where
  "set_key h (Ref a) k v =
     (case lookup h a of
        Some (GraphNode ty attrs) \<Rightarrow> h[a := GraphNode ty (AList.update k v attrs)]
      | _ \<Rightarrow> h)"
| "set_key h _ k v = h"

text \<open>Modelled from the spec: the \<open>Variable\<close> and \<open>VariableState\<close> classes are defined in
  \<open>variablelib\<close>.  A Variable is "a mutable cell holding a value plus a small mapping of
  immutable metadata"; unflatten either updates "that existing Variable's value in place"
  or constructs "a new Variable from the leaf value and the VariableDef's metadata".\<close>

fun to_state :: "heap \<Rightarrow> val \<Rightarrow> leaf" where
  "to_state h (Ref a) =
     (case lookup h a of
        Some (Variable ty raw md) \<Rightarrow> VariableState ty raw md
      | _ \<Rightarrow> Leaf (Ref a))"
| "to_state h v = Leaf v"

fun raw_value :: "heap \<Rightarrow> val \<Rightarrow> val" where
  "raw_value h (Ref a) = (case lookup h a of Some (Variable ty raw md) \<Rightarrow> raw | _ \<Rightarrow> Ref a)"
| "raw_value h v = v"

fun var_metadata :: "heap \<Rightarrow> val \<Rightarrow> metadata" where
  "var_metadata h (Ref a) = (case lookup h a of Some (Variable ty raw md) \<Rightarrow> md | _ \<Rightarrow> [])"
| "var_metadata h v = []"

fun new_variable :: "heap \<Rightarrow> pytype \<Rightarrow> metadata \<Rightarrow> leaf \<Rightarrow> val \<times> heap" where
  "new_variable h ty md (VariableState sty raw smd) = (Ref (length h), h @ [Variable sty raw smd])"
| "new_variable h ty md (Leaf raw) = (Ref (length h), h @ [Variable (type_name ty) raw md])"

fun update_variable :: "heap \<Rightarrow> val \<Rightarrow> leaf \<Rightarrow> heap" where
  "update_variable h (Ref a) l =
     (case lookup h a of
        Some (Variable ty raw md) \<Rightarrow>
          (case l of
             VariableState sty sraw smd \<Rightarrow> h[a := Variable ty sraw smd]
           | Leaf v \<Rightarrow> h[a := Variable ty v md])
      | _ \<Rightarrow> h)"
| "update_variable h _ l = h"

section \<open>Flatten\<close>

text \<open>The result of the traversal, or the exception it raised; \<open>None\<close> is a traversal cut
  off by its recursion budget.\<close>

type_synonym 'a outcome = "(error + 'a) option"

text \<open>\<open>ref_outer_index.get(value, None) if ref_outer_index else None\<close>\<close>

fun outer_index_of :: "refmap option \<Rightarrow> val \<Rightarrow> int option" where
  "outer_index_of None value = None"
| "outer_index_of (Some ref_outer_index) value =
     (if ref_outer_index = [] then None else map_of ref_outer_index value)"

text \<open>\<open>attributes.append((key, d))\<close> ahead of what the rest of the loop appends.\<close>

fun attributes_append ::
  "key \<times> graphdef \<Rightarrow> ((key \<times> graphdef) list \<times> 's) outcome \<Rightarrow> ((key \<times> graphdef) list \<times> 's) outcome"
where
  "attributes_append kd None = None"
| "attributes_append kd (Some (Inl e)) = Some (Inl e)"
| "attributes_append kd (Some (Inr (attributes, s))) = Some (Inr (kd # attributes, s))"

function graph_flatten ::
  "nat \<Rightarrow> heap \<Rightarrow> val \<Rightarrow> node_impl \<Rightarrow> path option \<Rightarrow> refmap \<Rightarrow> refmap option \<Rightarrow>
   leaf list \<Rightarrow> path list option \<Rightarrow> bool \<Rightarrow>
   (graphdef \<times> refmap \<times> leaf list \<times> path list option) outcome"
and flatten_values ::
  "nat \<Rightarrow> heap \<Rightarrow> (key \<times> val) list \<Rightarrow> path option \<Rightarrow> refmap \<Rightarrow> refmap option \<Rightarrow>
   leaf list \<Rightarrow> path list option \<Rightarrow> bool \<Rightarrow>
   ((key \<times> graphdef) list \<times> refmap \<times> leaf list \<times> path list option) outcome"
where
  "graph_flatten 0 h node node_impl path ref_index ref_outer_index leaves paths return_variables
     = None"
| "graph_flatten (Suc fuel) h node node_impl path ref_index ref_outer_index leaves paths
     return_variables =
     (if node_impl \<noteq> PytreeNodeImpl \<and> map_of ref_index node \<noteq> None
      then Some (Inr (NodeRef (type_of h node) (the (map_of ref_index node)),
                      ref_index, leaves, paths))
      else
        let index = (if node_impl = GraphNodeImpl then int (length ref_index) else - 1);
            ref_index1 = (if node_impl = GraphNodeImpl
                          then AList.update node index ref_index else ref_index)
        in case flatten_values fuel h (fst (node_flatten h node)) path ref_index1
                  ref_outer_index leaves paths return_variables of
             None \<Rightarrow> None
           | Some (Inl e) \<Rightarrow> Some (Inl e)
           | Some (Inr (attributes, ref_index2, leaves2, paths2)) \<Rightarrow>
               Some (Inr (NodeDef (type_of h node) index
                            (if node_impl = GraphNodeImpl
                             then outer_index_of ref_outer_index node else None)
                            attributes (snd (node_flatten h node)),
                          ref_index2, leaves2, paths2)))"
| "flatten_values fuel h [] path ref_index ref_outer_index leaves paths return_variables =
     Some (Inr ([], ref_index, leaves, paths))"
| "flatten_values fuel h ((key, value) # values) path ref_index ref_outer_index leaves paths
     return_variables =
     (let path1 = map_option (\<lambda>p. p @ [key]) path in
      case get_node_impl h value of
        Some value_node_impl \<Rightarrow>
          (case graph_flatten fuel h value value_node_impl path1 ref_index ref_outer_index
                  leaves paths return_variables of
             None \<Rightarrow> None
           | Some (Inl e) \<Rightarrow> Some (Inl e)
           | Some (Inr (nodedef, ref_index1, leaves1, paths1)) \<Rightarrow>
               attributes_append (key, nodedef)
                 (flatten_values fuel h values path ref_index1 ref_outer_index leaves1 paths1
                    return_variables))
      | None \<Rightarrow>
          if is_variable h value then
            (if map_of ref_index value \<noteq> None then
               attributes_append (key, NodeRef (type_of h value) (the (map_of ref_index value)))
                 (flatten_values fuel h values path ref_index ref_outer_index leaves paths
                    return_variables)
             else
               let leaf = (if return_variables then Leaf value
                           else if path = None then Leaf (raw_value h value)
                           else to_state h value);
                   leaves1 = leaves @ [leaf];
                   paths1 = (case path1 of None \<Rightarrow> paths
                             | Some p \<Rightarrow> map_option (\<lambda>ps. ps @ [p]) paths);
                   variable_index = int (length ref_index);
                   ref_index1 = AList.update value variable_index ref_index;
                   variabledef = VariableDef (type_of h value) variable_index
                                   (outer_index_of ref_outer_index value) (var_metadata h value)
               in attributes_append (key, variabledef)
                    (flatten_values fuel h values path ref_index1 ref_outer_index leaves1 paths1
                       return_variables))
          else if is_array value then Some (Inl (ArrayLeaf path1))
          else
            attributes_append (key, Static value)
              (flatten_values fuel h values path ref_index ref_outer_index leaves paths
                 return_variables))"
  by pat_completeness auto

termination
  by (relation "inv_image (less_than <*lex*> less_than)
        (\<lambda>x. case x of Inl p \<Rightarrow> (fst p, 0)
              | Inr p \<Rightarrow> (fst p, Suc (length (fst (snd (snd p))))))")
     auto

text \<open>\<open>flatten\<close>: the result also carries \<open>ref_index\<close> as the call leaves it, since the
  caller's dict is mutated in place.\<close>

definition flatten ::
  "nat \<Rightarrow> heap \<Rightarrow> val \<Rightarrow> bool \<Rightarrow> bool \<Rightarrow> refmap option \<Rightarrow> refmap option \<Rightarrow>
   (graphdef \<times> state \<times> refmap) outcome"
where
  "flatten fuel h node with_paths return_variables ref_index ref_outer_index =
     (let ref_index0 = (case ref_index of None \<Rightarrow> [] | Some r \<Rightarrow> r);
          path = (if with_paths then Some [] else None);
          paths = (if with_paths then Some [] else None)
      in case get_node_impl h node of
           None \<Rightarrow> Some (Inl UnsupportedType)
         | Some node_impl \<Rightarrow>
             (case graph_flatten fuel h node node_impl path ref_index0 ref_outer_index [] paths
                     return_variables of
                None \<Rightarrow> None
              | Some (Inl e) \<Rightarrow> Some (Inl e)
              | Some (Inr (graphdef, ref_index1, leaves, paths1)) \<Rightarrow>
                  Some (Inr (graphdef,
                    (case paths1 of Some ps \<Rightarrow> FlatState (zip ps leaves)
                     | None \<Rightarrow> LeafList leaves),
                    ref_index1))))"

section \<open>Unflatten\<close>

text \<open>\<open>outer_index_outer_ref is not None and d.outer_index in outer_index_outer_ref\<close>,
  with the object found there.\<close>

fun outer_ref_of :: "indexmap option \<Rightarrow> int option \<Rightarrow> val option" where
  "outer_ref_of (Some outer_index_outer_ref) (Some outer_index) =
     map_of outer_index_outer_ref outer_index"
| "outer_ref_of _ _ = None"

fun children_append ::
  "key \<times> val \<Rightarrow> error + (key \<times> val) list \<times> 's \<Rightarrow> error + (key \<times> val) list \<times> 's"
where
  "children_append kv (Inl e) = Inl e"
| "children_append kv (Inr (children, s)) = Inr (kv # children, s)"

fun graph_unflatten ::
  "heap \<Rightarrow> graphdef \<Rightarrow> node_impl \<Rightarrow> leaf list \<Rightarrow> indexmap \<Rightarrow> indexmap option \<Rightarrow>
   error + val \<times> heap \<times> leaf list \<times> indexmap"
and get_children ::
  "heap \<Rightarrow> (key \<times> graphdef) list \<Rightarrow> leaf list \<Rightarrow> indexmap \<Rightarrow> indexmap option \<Rightarrow>
   error + (key \<times> val) list \<times> heap \<times> leaf list \<times> indexmap"
where
  "graph_unflatten h (NodeRef ty index) node_impl leaves index_ref outer_index_outer_ref =
     (case map_of index_ref index of
        None \<Rightarrow> Inl (KeyError index)
      | Some node \<Rightarrow> Inr (node, h, leaves, index_ref))"
| "graph_unflatten h (NodeDef ty index outer_index attributes metadata) node_impl leaves
     index_ref outer_index_outer_ref =
     (if map_of index_ref index \<noteq> None then Inl (IndexAlreadyUsed index)
      else if node_impl = GraphNodeImpl then
        (case outer_ref_of outer_index_outer_ref outer_index of
           Some node \<Rightarrow>
             if type_of h node \<noteq> ty then Inl (TypeMismatch ty (type_of h node))
             else
               (case get_children (node_clear h node) attributes leaves
                       (AList.update index node index_ref) outer_index_outer_ref of
                  Inl e \<Rightarrow> Inl e
                | Inr (children, h1, leaves1, index_ref1) \<Rightarrow>
                    Inr (node, node_init h1 node children, leaves1, index_ref1))
         | None \<Rightarrow>
             (case get_children (snd (create_empty h metadata)) attributes leaves
                     (AList.update index (fst (create_empty h metadata)) index_ref)
                     outer_index_outer_ref of
                Inl e \<Rightarrow> Inl e
              | Inr (children, h1, leaves1, index_ref1) \<Rightarrow>
                  Inr (fst (create_empty h metadata),
                       node_init h1 (fst (create_empty h metadata)) children,
                       leaves1, index_ref1)))
      else
        (case get_children h attributes leaves index_ref outer_index_outer_ref of
           Inl e \<Rightarrow> Inl e
         | Inr (children, h1, leaves1, index_ref1) \<Rightarrow>
             Inr (Pytree (type_name ty) children metadata, h1, leaves1, index_ref1)))"
| "graph_unflatten h (VariableDef ty index outer_index metadata) node_impl leaves index_ref
     outer_index_outer_ref = Inl AssertionError"
| "graph_unflatten h (Static value) node_impl leaves index_ref outer_index_outer_ref =
     Inl AssertionError"
| "get_children h [] leaves index_ref outer_index_outer_ref = Inr ([], h, leaves, index_ref)"
| "get_children h ((key, Static value) # attributes) leaves index_ref outer_index_outer_ref =
     children_append (key, value)
       (get_children h attributes leaves index_ref outer_index_outer_ref)"
| "get_children h ((key, NodeRef ty index) # attributes) leaves index_ref
     outer_index_outer_ref =
     (case map_of index_ref index of
        None \<Rightarrow> Inl (KeyError index)
      | Some node \<Rightarrow>
          children_append (key, node)
            (get_children h attributes leaves index_ref outer_index_outer_ref))"
| "get_children h ((key, NodeDef ty index outer_index attrs metadata) # attributes) leaves
     index_ref outer_index_outer_ref =
     (case get_node_impl_for_type ty of
        None \<Rightarrow> Inl AssertionError
      | Some value_node_impl \<Rightarrow>
          (case graph_unflatten h (NodeDef ty index outer_index attrs metadata) value_node_impl
                  leaves index_ref outer_index_outer_ref of
             Inl e \<Rightarrow> Inl e
           | Inr (subnode, h1, leaves1, index_ref1) \<Rightarrow>
               children_append (key, subnode)
                 (get_children h1 attributes leaves1 index_ref1 outer_index_outer_ref)))"
| "get_children h ((key, VariableDef ty index outer_index metadata) # attributes) leaves
     index_ref outer_index_outer_ref =
     (case leaves of
        [] \<Rightarrow> Inl NotEnoughLeaves
      | value # leaves1 \<Rightarrow>
          (case outer_ref_of outer_index_outer_ref outer_index of
             Some variable \<Rightarrow>
               if \<not> is_variable h variable then Inl (ExpectedVariable key)
               else
                 children_append (key, variable)
                   (get_children (update_variable h variable value) attributes leaves1
                      (AList.update index variable index_ref) outer_index_outer_ref)
           | None \<Rightarrow>
               children_append (key, fst (new_variable h ty metadata value))
                 (get_children (snd (new_variable h ty metadata value)) attributes leaves1
                    (AList.update index (fst (new_variable h ty metadata value)) index_ref)
                    outer_index_outer_ref)))"

text \<open>\<open>_get_sorted_leaves\<close> walks the nested mapping in sorted key order at every level,
  which visits the leaves in the lexicographic order of their paths.\<close>

definition get_sorted_leaves :: "(path \<times> leaf) list \<Rightarrow> leaf list" where
  "get_sorted_leaves xs = map snd (sort_key fst xs)"

text \<open>The queue of leaves \<open>unflatten\<close> builds from \<open>state\<close>: sorted for a \<open>State\<close>,
  the values in order for a \<open>FlatState\<close>, the list itself otherwise.\<close>

fun leaves_of_state :: "state \<Rightarrow> leaf list" where
  "leaves_of_state (State xs) = get_sorted_leaves xs"
| "leaves_of_state (FlatState xs) = map snd xs"
| "leaves_of_state (LeafList ls) = ls"

definition unflatten ::
  "heap \<Rightarrow> graphdef \<Rightarrow> state \<Rightarrow> indexmap option \<Rightarrow> indexmap option \<Rightarrow>
   error + val \<times> heap \<times> indexmap"
where
  "unflatten h graphdef st index_ref outer_index_outer_ref =
     (let leaves = leaves_of_state st;
          index_ref0 = (case index_ref of None \<Rightarrow> [] | Some m \<Rightarrow> m)
      in case (case graphdef of
                 NodeRef ty index \<Rightarrow>
                   (case map_of index_ref0 index of
                      None \<Rightarrow> Inl (KeyError index)
                    | Some node \<Rightarrow> Inr (node, h, leaves, index_ref0))
               | NodeDef ty index outer_index attributes metadata \<Rightarrow>
                   (case get_node_impl_for_type ty of
                      None \<Rightarrow> Inl UnsupportedType
                    | Some node_impl \<Rightarrow>
                        graph_unflatten h graphdef node_impl leaves index_ref0
                          outer_index_outer_ref)
               | _ \<Rightarrow> Inl AssertionError) of
           Inl e \<Rightarrow> Inl e
         | Inr (node, h1, leaves1, index_ref1) \<Rightarrow>
             if leaves1 \<noteq> [] then Inl (ExtraLeaves (length leaves1))
             else Inr (node, h1, index_ref1))"

section \<open>Fingerprint\<close>

text \<open>The tuples \<open>_graph_fingerprint\<close> builds.  A node is \<open>(id, type, index)\<close> when it was
  seen before and \<open>(id or None, type, index, attributes, metadata)\<close> otherwise; an
  attribute is \<open>(key, node_fp)\<close>, \<open>(key, id, type, index)\<close> for a Variable seen before,
  \<open>(key, id, type, index, metadata items)\<close> for a new Variable, or \<open>(key, value)\<close>.\<close>

datatype fingerprint =
    FpRef ref pytype int
  | FpNode "ref option" pytype int "fp_attribute list" string
and fp_attribute =
    FpSub key fingerprint
  | FpVarRef key ref pytype int
  | FpVar key ref pytype int metadata
  | FpStatic key val

text \<open>\<open>id(x)\<close> of a heap object.\<close>

fun id_of :: "val \<Rightarrow> ref" where
  "id_of (Ref a) = a"
| "id_of _ = 0"

fun fp_append ::
  "fp_attribute \<Rightarrow> (fp_attribute list \<times> 's) outcome \<Rightarrow> (fp_attribute list \<times> 's) outcome"
where
  "fp_append x None = None"
| "fp_append x (Some (Inl e)) = Some (Inl e)"
| "fp_append x (Some (Inr (attributes, s))) = Some (Inr (x # attributes, s))"

function graph_fingerprint ::
  "nat \<Rightarrow> heap \<Rightarrow> val \<Rightarrow> node_impl \<Rightarrow> refmap \<Rightarrow> refmap \<Rightarrow> int \<Rightarrow>
   (fingerprint \<times> refmap \<times> int) outcome"
and fingerprint_values ::
  "nat \<Rightarrow> heap \<Rightarrow> (key \<times> val) list \<Rightarrow> refmap \<Rightarrow> refmap \<Rightarrow> int \<Rightarrow>
   (fp_attribute list \<times> refmap \<times> int) outcome"
where
  "graph_fingerprint 0 h node node_impl ref_index new_ref_index next_index = None"
| "graph_fingerprint (Suc fuel) h node node_impl ref_index new_ref_index next_index =
     (if node_impl \<noteq> PytreeNodeImpl \<and> map_of ref_index node \<noteq> None
      then Some (Inr (FpRef (id_of node) (type_of h node) (the (map_of ref_index node)),
                      new_ref_index, next_index))
      else if node_impl \<noteq> PytreeNodeImpl \<and> map_of new_ref_index node \<noteq> None
      then Some (Inr (FpRef (id_of node) (type_of h node) (the (map_of new_ref_index node)),
                      new_ref_index, next_index))
      else
        let index = (if node_impl = GraphNodeImpl then next_index else - 1);
            new_ref_index1 = (if node_impl = GraphNodeImpl
                              then AList.update node next_index new_ref_index
                              else new_ref_index);
            next_index1 = (if node_impl = GraphNodeImpl then next_index + 1 else next_index)
        in case fingerprint_values fuel h (fst (node_flatten h node)) ref_index new_ref_index1
                  next_index1 of
             None \<Rightarrow> None
           | Some (Inl e) \<Rightarrow> Some (Inl e)
           | Some (Inr (attributes, new_ref_index2, next_index2)) \<Rightarrow>
               Some (Inr (FpNode (if node_impl = GraphNodeImpl then Some (id_of node) else None)
                            (type_of h node) index attributes (snd (node_flatten h node)),
                          new_ref_index2, next_index2)))"
| "fingerprint_values fuel h [] ref_index new_ref_index next_index =
     Some (Inr ([], new_ref_index, next_index))"
| "fingerprint_values fuel h ((key, value) # values) ref_index new_ref_index next_index =
     (case get_node_impl h value of
        Some value_node_impl \<Rightarrow>
          (case graph_fingerprint fuel h value value_node_impl ref_index new_ref_index
                  next_index of
             None \<Rightarrow> None
           | Some (Inl e) \<Rightarrow> Some (Inl e)
           | Some (Inr (node_fp, new_ref_index1, next_index1)) \<Rightarrow>
               fp_append (FpSub key node_fp)
                 (fingerprint_values fuel h values ref_index new_ref_index1 next_index1))
      | None \<Rightarrow>
          if is_variable h value then
            (if map_of ref_index value \<noteq> None then
               fp_append
                 (FpVarRef key (id_of value) (type_of h value) (the (map_of ref_index value)))
                 (fingerprint_values fuel h values ref_index new_ref_index next_index)
             else if map_of new_ref_index value \<noteq> None then
               fp_append
                 (FpVarRef key (id_of value) (type_of h value)
                    (the (map_of new_ref_index value)))
                 (fingerprint_values fuel h values ref_index new_ref_index next_index)
             else
               fp_append
                 (FpVar key (id_of value) (type_of h value) next_index (var_metadata h value))
                 (fingerprint_values fuel h values ref_index
                    (AList.update value next_index new_ref_index) (next_index + 1)))
          else if is_array value then Some (Inl (ArrayLeaf None))
          else
            fp_append (FpStatic key value)
              (fingerprint_values fuel h values ref_index new_ref_index next_index))"
  by pat_completeness auto

termination
  by (relation "inv_image (less_than <*lex*> less_than)
        (\<lambda>x. case x of Inl p \<Rightarrow> (fst p, 0)
              | Inr p \<Rightarrow> (fst p, Suc (length (fst (snd (snd p))))))")
     auto

definition fingerprint ::
  "nat \<Rightarrow> heap \<Rightarrow> val \<Rightarrow> refmap option \<Rightarrow> refmap option \<Rightarrow> fingerprint outcome"
where
  "fingerprint fuel h node ref_index new_ref_index =
     (let ref_index0 = (case ref_index of None \<Rightarrow> [] | Some r \<Rightarrow> r);
          new_ref_index0 = (case new_ref_index of None \<Rightarrow> [] | Some r \<Rightarrow> r);
          next_index = int (length ref_index0) + int (length new_ref_index0)
      in case get_node_impl h node of
           None \<Rightarrow> Some (Inl UnsupportedType)
         | Some node_impl \<Rightarrow>
             (case graph_fingerprint fuel h node node_impl ref_index0 new_ref_index0
                     next_index of
                None \<Rightarrow> None
              | Some (Inl e) \<Rightarrow> Some (Inl e)
              | Some (Inr (fp, new_ref_index1, next_index1)) \<Rightarrow> Some (Inr fp)))"

section \<open>The update context\<close>

record update_context =
  tag :: string
  outer_ref_outer_index :: "refmap option"
  outer_index_inner_ref :: "indexmap option"
  outer_index_outer_ref :: "indexmap option"
  inner_ref_outer_index :: "refmap option"

text \<open>\<open>UpdateContext(tag, None, None, None, None)\<close>, as \<open>UpdateContextManager.__enter__\<close>
  creates it.\<close>

definition new_update_context :: "string \<Rightarrow> update_context" where
  "new_update_context t =
     \<lparr>tag = t, outer_ref_outer_index = None, outer_index_inner_ref = None,
      outer_index_outer_ref = None, inner_ref_outer_index = None\<rparr>"

text \<open>\<open>{index: obj for obj, index in m.items()}\<close>: a later pair replaces an earlier one
  with the same key.\<close>

definition invert_map :: "('a \<times> 'b) list \<Rightarrow> ('b \<times> 'a) list" where
  "invert_map m = foldl (\<lambda>acc (k, v). AList.update v k acc) [] m"

definition flatten_end :: "update_context \<Rightarrow> refmap \<Rightarrow> update_context" where
  "flatten_end ctx ref_index =
     (if outer_ref_outer_index ctx = None
      then ctx\<lparr>outer_ref_outer_index := Some ref_index,
               outer_index_outer_ref := Some (invert_map ref_index)\<rparr>
      else ctx\<lparr>outer_index_inner_ref := None, inner_ref_outer_index := None\<rparr>)"

definition unflatten_end :: "update_context \<Rightarrow> indexmap \<Rightarrow> bool \<Rightarrow> update_context" where
  "unflatten_end ctx index_ref inner_merge =
     (if inner_merge
      then ctx\<lparr>outer_index_inner_ref := Some index_ref,
               inner_ref_outer_index := Some (invert_map index_ref)\<rparr>
      else ctx)"

text \<open>\<open>UpdateContext.split\<close> without filters: \<open>flatten\<close> with a fresh \<open>ref_index\<close>, the flat
  state turned into a \<open>State\<close>, then \<open>flatten_end\<close>.\<close>

definition update_context_split ::
  "nat \<Rightarrow> update_context \<Rightarrow> heap \<Rightarrow> val \<Rightarrow> (graphdef \<times> state \<times> update_context) outcome"
where
  "update_context_split fuel ctx h node =
     (case flatten fuel h node True False (Some []) (inner_ref_outer_index ctx) of
        None \<Rightarrow> None
      | Some (Inl e) \<Rightarrow> Some (Inl e)
      | Some (Inr (graphdef, flat_state, ref_index)) \<Rightarrow>
          Some (Inr (graphdef,
                     (case flat_state of FlatState xs \<Rightarrow> State xs | s \<Rightarrow> s),
                     flatten_end ctx ref_index)))"

text \<open>\<open>UpdateContext.merge\<close> with a single state.\<close>

definition update_context_merge ::
  "update_context \<Rightarrow> heap \<Rightarrow> graphdef \<Rightarrow> state \<Rightarrow> error + val \<times> heap \<times> update_context"
where
  "update_context_merge ctx h graphdef st =
     (case graphdef of
        NodeDef ty index outer_index attributes metadata \<Rightarrow>
          if outer_ref_outer_index ctx = None then Inl CannotMergeWithoutRefIndex
          else
            (case outer_index_outer_ref ctx of
               None \<Rightarrow> Inl AssertionError
             | Some index_ref_cache \<Rightarrow>
                 (case unflatten h graphdef st (Some []) (Some index_ref_cache) of
                    Inl e \<Rightarrow> Inl e
                  | Inr (node, h1, index_ref) \<Rightarrow>
                      Inr (node, h1, unflatten_end ctx index_ref True)))
      | _ \<Rightarrow> Inl ExpectedNodeDef)"

text \<open>The four calls of the protocol as the docstring of \<open>update_context\<close> runs them:
  outer split, inner merge, the mutation \<open>m2.a = 1; m2.ref = m2\<close>, inner split, outer
  merge.\<close>

definition update_context_round_trip ::
  "nat \<Rightarrow> update_context \<Rightarrow> heap \<Rightarrow> val \<Rightarrow> (val \<times> heap \<times> update_context) outcome"
where
  "update_context_round_trip fuel ctx h m1 =
     (case update_context_split fuel ctx h m1 of
        None \<Rightarrow> None
      | Some (Inl e) \<Rightarrow> Some (Inl e)
      | Some (Inr (graphdef, st, ctx1)) \<Rightarrow>
          (case update_context_merge ctx1 h graphdef st of
             Inl e \<Rightarrow> Some (Inl e)
           | Inr (m2, h2, ctx2) \<Rightarrow>
               (case update_context_split fuel ctx2
                       (set_key (set_key h2 m2 ''a'' (Const 1)) m2 ''ref'' m2) m2 of
                  None \<Rightarrow> None
                | Some (Inl e) \<Rightarrow> Some (Inl e)
                | Some (Inr (graphdef_out, state_out, ctx3)) \<Rightarrow>
                    Some (update_context_merge ctx3
                            (set_key (set_key h2 m2 ''a'' (Const 1)) m2 ''ref'' m2)
                            graphdef_out state_out))))"

section \<open>Auxiliary notions used by the properties\<close>

text \<open>A descriptor holds an array as a \<open>Static\<close> value somewhere.\<close>

fun has_static_array :: "graphdef \<Rightarrow> bool" where
  "has_static_array (Static v) = is_array v"
| "has_static_array (NodeDef ty i oi attributes md) =
     list_ex (\<lambda>kd. has_static_array (snd kd)) attributes"
| "has_static_array _ = False"


text \<open>The number of leaves a descriptor demands: one for every \<open>VariableDef\<close>.\<close>

fun count_leaves :: "graphdef \<Rightarrow> nat" where
  "count_leaves (NodeDef ty i oi attributes md) =
     sum_list (map (\<lambda>kd. count_leaves (snd kd)) attributes)"
| "count_leaves (VariableDef ty i oi md) = 1"
| "count_leaves _ = 0"

text \<open>What \<open>graph_unflatten\<close> does to the node of a \<open>NodeDef\<close> before and after it resolves
  the children.\<close>

definition node_before :: "heap \<Rightarrow> pytype \<Rightarrow> int option \<Rightarrow> string \<Rightarrow> node_impl \<Rightarrow>
    indexmap option \<Rightarrow> (val option \<times> heap) option" where
  "node_before h ty oi md impl oior =
     (if impl = GraphNodeImpl then
        (case outer_ref_of oior oi of
           Some node \<Rightarrow> if type_of h node \<noteq> ty then None
                        else Some (Some node, node_clear h node)
         | None \<Rightarrow> Some (Some (fst (create_empty h md)), snd (create_empty h md)))
      else Some (None, h))"

text \<open>A successful run of unflatten consumes exactly the leaves the descriptor demands and
  does not look at the rest.\<close>

definition leaves_frame_node ::
  "graphdef \<Rightarrow> heap \<times> node_impl \<times> leaf list \<times> indexmap \<times> indexmap option \<times>
     (val \<times> heap \<times> leaf list \<times> indexmap) \<Rightarrow> bool" where
  "leaves_frame_node d = (\<lambda>(h, impl, L, ir, oior, v, h', L', ir').
     graph_unflatten h d impl L ir oior = Inr (v, h', L', ir') \<longrightarrow>
       (\<exists>pre. L = pre @ L' \<and> length pre = count_leaves d \<and>
          (\<forall>rest. graph_unflatten h d impl (pre @ rest) ir oior = Inr (v, h', rest, ir'))))"

definition leaves_frame_children ::
  "(key \<times> graphdef) list \<Rightarrow> heap \<times> leaf list \<times> indexmap \<times> indexmap option \<times>
     ((key \<times> val) list \<times> heap \<times> leaf list \<times> indexmap) \<Rightarrow> bool" where
  "leaves_frame_children attrs = (\<lambda>(h, L, ir, oior, cs, h', L', ir').
     get_children h attrs L ir oior = Inr (cs, h', L', ir') \<longrightarrow>
       (\<exists>pre. L = pre @ L' \<and>
          length pre = sum_list (map (\<lambda>kd. count_leaves (snd kd)) attrs) \<and>
          (\<forall>rest. get_children h attrs (pre @ rest) ir oior = Inr (cs, h', rest, ir'))))"

text \<open>With fewer leaves than the descriptor demands, a run that would succeed fails for
  lack of leaves.\<close>

definition starve_node ::
  "graphdef \<Rightarrow> heap \<times> node_impl \<times> leaf list \<times> indexmap \<times> indexmap option \<times>
     (val \<times> heap \<times> leaf list \<times> indexmap) \<times> nat \<Rightarrow> bool" where
  "starve_node d = (\<lambda>(h, impl, L, ir, oior, res, n).
     graph_unflatten h d impl L ir oior = Inr res \<longrightarrow> n < count_leaves d \<longrightarrow>
       graph_unflatten h d impl (take n L) ir oior = Inl NotEnoughLeaves)"

definition starve_children ::
  "(key \<times> graphdef) list \<Rightarrow> heap \<times> leaf list \<times> indexmap \<times> indexmap option \<times>
     ((key \<times> val) list \<times> heap \<times> leaf list \<times> indexmap) \<times> nat \<Rightarrow> bool" where
  "starve_children attrs = (\<lambda>(h, L, ir, oior, res, n).
     get_children h attrs L ir oior = Inr res \<longrightarrow>
     n < sum_list (map (\<lambda>kd. count_leaves (snd kd)) attrs) \<longrightarrow>
       get_children h attrs (take n L) ir oior = Inl NotEnoughLeaves)"

text \<open>A reference map as flatten builds it from an empty one: no key twice, and the
  indexes are the positions of insertion.\<close>

definition dense :: "refmap \<Rightarrow> bool" where
  "dense r \<longleftrightarrow> distinct (map fst r) \<and> map snd r = map int [0..<length r]"

text \<open>The descriptor describes the objects it was made from, slot by slot: a graph node
  or Variable has in its slot a \<open>NodeDef\<close>, \<open>VariableDef\<close> or \<open>NodeRef\<close> with the index the
  reference map gives to that very object, a pytree node a \<open>NodeDef\<close> with index \<open>-1\<close>, and
  only a value that is neither has a \<open>Static\<close>.\<close>

fun slots_agree :: "heap \<Rightarrow> refmap \<Rightarrow> val \<Rightarrow> graphdef \<Rightarrow> bool"
and slots_agree_attrs :: "heap \<Rightarrow> refmap \<Rightarrow> (key \<times> val) list \<Rightarrow> (key \<times> graphdef) list \<Rightarrow> bool"
where
  "slots_agree h r v (NodeRef ty i) =
     ((get_node_impl h v = Some GraphNodeImpl \<or> is_variable h v) \<and> map_of r v = Some i)"
| "slots_agree h r v (VariableDef ty i oi md) = (is_variable h v \<and> map_of r v = Some i)"
| "slots_agree h r v (Static x) = (v = x \<and> get_node_impl h v = None \<and> \<not> is_variable h v)"
| "slots_agree h r v (NodeDef ty i oi attributes md) =
     ((case get_node_impl h v of
         Some GraphNodeImpl \<Rightarrow> map_of r v = Some i
       | Some PytreeNodeImpl \<Rightarrow> i = - 1
       | None \<Rightarrow> False) \<and>
      slots_agree_attrs h r (fst (node_flatten h v)) attributes)"
| "slots_agree_attrs h r [] [] = True"
| "slots_agree_attrs h r (kv # vs) (kd # ds) =
     (fst kv = fst kd \<and> slots_agree h r (snd kv) (snd kd) \<and> slots_agree_attrs h r vs ds)"
| "slots_agree_attrs h r [] (kd # ds) = False"
| "slots_agree_attrs h r (kv # vs) [] = False"

text \<open>What one call of the traversal keeps of the reference map.\<close>

definition slot_inv_node ::
  "nat \<Rightarrow> heap \<Rightarrow> refmap option \<Rightarrow> bool \<Rightarrow> val \<Rightarrow>
   node_impl \<times> path option \<times> refmap \<times> leaf list \<times> path list option \<times> graphdef \<times> refmap \<times>
   leaf list \<times> path list option \<Rightarrow> bool"
where
  "slot_inv_node fuel h ro rv node = (\<lambda>(impl, path, r, l, p, gd, r', t).
     graph_flatten fuel h node impl path r ro l p rv = Some (Inr (gd, r', t)) \<longrightarrow>
     get_node_impl h node = Some impl \<longrightarrow> dense r \<longrightarrow>
     dense r' \<and> (\<exists>n. r' = r @ n) \<and> slots_agree h r' node gd)"

definition slot_inv_values ::
  "nat \<Rightarrow> heap \<Rightarrow> refmap option \<Rightarrow> bool \<Rightarrow> (key \<times> val) list \<Rightarrow>
   path option \<times> refmap \<times> leaf list \<times> path list option \<times> (key \<times> graphdef) list \<times> refmap \<times>
   leaf list \<times> path list option \<Rightarrow> bool"
where
  "slot_inv_values fuel h ro rv vs = (\<lambda>(path, r, l, p, attrs, r', t).
     flatten_values fuel h vs path r ro l p rv = Some (Inr (attrs, r', t)) \<longrightarrow> dense r \<longrightarrow>
     dense r' \<and> (\<exists>n. r' = r @ n) \<and> slots_agree_attrs h r' vs attrs)"

text \<open>The value found by following a path of keys from a node is an array: the path names
  an array held as an attribute.\<close>

fun array_at :: "heap \<Rightarrow> val \<Rightarrow> path \<Rightarrow> bool" where
  "array_at h v [] = is_array v"
| "array_at h v (k # ks) =
     list_ex (\<lambda>kv. fst kv = k \<and> array_at h (snd kv) ks) (fst (node_flatten h v))"

text \<open>The error of a traversal started at \<open>path\<close> is the array error, and it carries the
  path of an array below the node (below one of the children), or no path when the
  traversal keeps none.\<close>

definition names_array :: "heap \<Rightarrow> val \<Rightarrow> path option \<Rightarrow> error \<Rightarrow> bool" where
  "names_array h node path e =
     (case e of
        ArrayLeaf q \<Rightarrow>
          (case path of
             None \<Rightarrow> q = None
           | Some p0 \<Rightarrow>
               (case q of None \<Rightarrow> False
                | Some p \<Rightarrow> take (length p0) p = p0 \<and> drop (length p0) p \<noteq> [] \<and>
                            array_at h node (drop (length p0) p)))
      | _ \<Rightarrow> False)"

definition names_array_values :: "heap \<Rightarrow> (key \<times> val) list \<Rightarrow> path option \<Rightarrow> error \<Rightarrow> bool" where
  "names_array_values h vs path e =
     (case e of
        ArrayLeaf q \<Rightarrow>
          (case path of
             None \<Rightarrow> q = None
           | Some p0 \<Rightarrow>
               (case q of None \<Rightarrow> False
                | Some p \<Rightarrow> take (length p0) p = p0 \<and>
                   (case drop (length p0) p of [] \<Rightarrow> False
                    | k # ks \<Rightarrow> list_ex (\<lambda>kv. fst kv = k \<and> array_at h (snd kv) ks) vs)))
      | _ \<Rightarrow> False)"

definition error_inv_node ::
  "nat \<Rightarrow> heap \<Rightarrow> refmap option \<Rightarrow> bool \<Rightarrow> val \<Rightarrow>
   node_impl \<times> path option \<times> refmap \<times> leaf list \<times> path list option \<times> error \<Rightarrow> bool"
where
  "error_inv_node fuel h ro rv node = (\<lambda>(impl, path, r, l, p, e).
     graph_flatten fuel h node impl path r ro l p rv = Some (Inl e) \<longrightarrow>
     names_array h node path e)"

definition error_inv_values ::
  "nat \<Rightarrow> heap \<Rightarrow> refmap option \<Rightarrow> bool \<Rightarrow> (key \<times> val) list \<Rightarrow>
   path option \<times> refmap \<times> leaf list \<times> path list option \<times> error \<Rightarrow> bool"
where
  "error_inv_values fuel h ro rv vs = (\<lambda>(path, r, l, p, e).
     flatten_values fuel h vs path r ro l p rv = Some (Inl e) \<longrightarrow>
     names_array_values h vs path e)"

text \<open>The map \<open>new_ref_index\<close> as fingerprint builds it: no key twice, and the indexes count
  on from the size of \<open>ref_index\<close>.  A lookup tries \<open>ref_index\<close>, then \<open>new_ref_index\<close>.\<close>

definition dense_from :: "nat \<Rightarrow> refmap \<Rightarrow> bool" where
  "dense_from k m \<longleftrightarrow> distinct (map fst m) \<and> map snd m = map int [k..<k + length m]"

definition look :: "refmap \<Rightarrow> refmap \<Rightarrow> val \<Rightarrow> int option" where
  "look ri m v = (case map_of ri v of Some i \<Rightarrow> Some i | None \<Rightarrow> map_of m v)"

text \<open>The fingerprint describes the objects it was made from, slot by slot: the entry of
  a graph node or Variable carries the \<open>id\<close> of that very object and the index the maps give
  to it.\<close>

fun fp_agree :: "heap \<Rightarrow> refmap \<Rightarrow> refmap \<Rightarrow> val \<Rightarrow> fingerprint \<Rightarrow> bool"
and fp_agree_attrs :: "heap \<Rightarrow> refmap \<Rightarrow> refmap \<Rightarrow> (key \<times> val) list \<Rightarrow> fp_attribute list \<Rightarrow> bool"
and fp_agree_attr :: "heap \<Rightarrow> refmap \<Rightarrow> refmap \<Rightarrow> key \<times> val \<Rightarrow> fp_attribute \<Rightarrow> bool"
where
  "fp_agree h ri m v (FpRef a ty i) =
     (v = Ref a \<and> get_node_impl h v = Some GraphNodeImpl \<and> look ri m v = Some i)"
| "fp_agree h ri m v (FpNode ido ty i attributes md) =
     ((case get_node_impl h v of
         Some GraphNodeImpl \<Rightarrow> ido = Some (id_of v) \<and> v = Ref (id_of v) \<and> look ri m v = Some i
       | Some PytreeNodeImpl \<Rightarrow> ido = None \<and> i = - 1
       | None \<Rightarrow> False) \<and>
      fp_agree_attrs h ri m (fst (node_flatten h v)) attributes)"
| "fp_agree_attrs h ri m [] [] = True"
| "fp_agree_attrs h ri m (kv # vs) (x # xs) =
     (fp_agree_attr h ri m kv x \<and> fp_agree_attrs h ri m vs xs)"
| "fp_agree_attrs h ri m [] (x # xs) = False"
| "fp_agree_attrs h ri m (kv # vs) [] = False"
| "fp_agree_attr h ri m kv (FpSub key fp) =
     (fst kv = key \<and> get_node_impl h (snd kv) \<noteq> None \<and> fp_agree h ri m (snd kv) fp)"
| "fp_agree_attr h ri m kv (FpVarRef key a ty i) =
     (fst kv = key \<and> snd kv = Ref a \<and> is_variable h (snd kv) \<and> look ri m (snd kv) = Some i)"
| "fp_agree_attr h ri m kv (FpVar key a ty i md) =
     (fst kv = key \<and> snd kv = Ref a \<and> is_variable h (snd kv) \<and> look ri m (snd kv) = Some i)"
| "fp_agree_attr h ri m kv (FpStatic key x) =
     (fst kv = key \<and> snd kv = x \<and> get_node_impl h x = None \<and> \<not> is_variable h x)"

text \<open>What one call of the fingerprint traversal keeps of \<open>new_ref_index\<close>.\<close>

definition fp_inv_node ::
  "nat \<Rightarrow> heap \<Rightarrow> refmap \<Rightarrow> val \<Rightarrow>
   node_impl \<times> refmap \<times> int \<times> fingerprint \<times> refmap \<times> int \<Rightarrow> bool"
where
  "fp_inv_node fuel h ri node = (\<lambda>(impl, m, nx, fp, m', nx').
     graph_fingerprint fuel h node impl ri m nx = Some (Inr (fp, m', nx')) \<longrightarrow>
     get_node_impl h node = Some impl \<longrightarrow> dense_from (length ri) m \<longrightarrow>
     nx = int (length ri + length m) \<longrightarrow>
     (\<exists>n. m' = m @ n) \<and> dense_from (length ri) m' \<and> nx' = int (length ri + length m') \<and>
     fp_agree h ri m' node fp)"

definition fp_inv_values ::
  "nat \<Rightarrow> heap \<Rightarrow> refmap \<Rightarrow> (key \<times> val) list \<Rightarrow>
   refmap \<times> int \<times> fp_attribute list \<times> refmap \<times> int \<Rightarrow> bool"
where
  "fp_inv_values fuel h ri vs = (\<lambda>(m, nx, attrs, m', nx').
     fingerprint_values fuel h vs ri m nx = Some (Inr (attrs, m', nx')) \<longrightarrow>
     dense_from (length ri) m \<longrightarrow> nx = int (length ri + length m) \<longrightarrow>
     (\<exists>n. m' = m @ n) \<and> dense_from (length ri) m' \<and> nx' = int (length ri + length m') \<and>
     fp_agree_attrs h ri m' vs attrs)"

text \<open>A bound on the depth of the recursion of flatten: the nesting of pytree values, and
  one level, with the nesting of its own children, for every graph node that is not yet in
  the reference map.\<close>

fun weight :: "val \<Rightarrow> nat" and weights :: "(key \<times> val) list \<Rightarrow> nat" where
  "weight (Pytree ty items aux) = Suc (weights items)"
| "weight (Ref a) = 0"
| "weight (Array xs) = 0"
| "weight (Const c) = 0"
| "weights [] = 0"
| "weights (kv # kvs) = max (weight (snd kv)) (weights kvs)"

definition unvisited :: "heap \<Rightarrow> refmap \<Rightarrow> nat" where
  "unvisited h r =
     sum_list (map (\<lambda>a. if get_node_impl h (Ref a) = Some GraphNodeImpl \<and> map_of r (Ref a) = None
                        then Suc (weights (fst (node_flatten h (Ref a)))) else 0) [0..<length h])"



text \<open>The objects flatten gives an index to are the graph nodes and the Variables.  A value is
  covered by a reference map when every such object in it has an index; no array is.\<close>

definition tracked :: "heap \<Rightarrow> val \<Rightarrow> bool" where
  "tracked h v \<longleftrightarrow> get_node_impl h v = Some GraphNodeImpl \<or> is_variable h v"

fun covered :: "heap \<Rightarrow> refmap \<Rightarrow> val \<Rightarrow> bool" where
  "covered h r (Pytree ty items aux) = list_all (\<lambda>kv. covered h r (snd kv)) items"
| "covered h r (Array xs) = False"
| "covered h r v = (tracked h v \<longrightarrow> map_of r v \<noteq> None)"

text \<open>The value that takes the place of \<open>v\<close> in the graph unflatten builds in a heap of size
  \<open>base\<close>: the object with index \<open>i\<close> is the \<open>i\<close>-th new object.  The new object has the
  type and the keys of the old one and the renamed children; a new Variable has the type,
  value and metadata of the old one.\<close>

fun rename :: "refmap \<Rightarrow> nat \<Rightarrow> val \<Rightarrow> val" where
  "rename r base (Pytree ty items aux) =
     Pytree ty (map (\<lambda>kv. (fst kv, rename r base (snd kv))) items) aux"
| "rename r base v = (case map_of r v of Some i \<Rightarrow> Ref (base + nat i) | None \<Rightarrow> v)"

fun rename_obj :: "refmap \<Rightarrow> nat \<Rightarrow> obj \<Rightarrow> obj" where
  "rename_obj r base (GraphNode ty attrs) =
     GraphNode ty (map (\<lambda>kv. (fst kv, rename r base (snd kv))) attrs)"
| "rename_obj r base (Variable ty raw md) = Variable ty raw md"

text \<open>What one call of the traversal adds to the reference map: graph nodes and Variables,
  with all their children covered.\<close>

definition cover_inv_node ::
  "nat \<Rightarrow> heap \<Rightarrow> refmap option \<Rightarrow> bool \<Rightarrow> val \<Rightarrow>
   node_impl \<times> path option \<times> refmap \<times> leaf list \<times> path list option \<times> graphdef \<times> refmap \<times>
   leaf list \<times> path list option \<Rightarrow> bool"
where
  "cover_inv_node fuel h ro rv node = (\<lambda>(impl, path, r, l, p, gd, r', t).
     graph_flatten fuel h node impl path r ro l p rv = Some (Inr (gd, r', t)) \<longrightarrow>
     get_node_impl h node = Some impl \<longrightarrow>
     (\<exists>n. r' = r @ n \<and>
        (\<forall>k\<in>fst ` set n. tracked h k \<and>
            list_all (\<lambda>kv. covered h r' (snd kv)) (fst (node_flatten h k))) \<and>
        covered h r' node))"

definition cover_inv_values ::
  "nat \<Rightarrow> heap \<Rightarrow> refmap option \<Rightarrow> bool \<Rightarrow> (key \<times> val) list \<Rightarrow>
   path option \<times> refmap \<times> leaf list \<times> path list option \<times> (key \<times> graphdef) list \<times> refmap \<times>
   leaf list \<times> path list option \<Rightarrow> bool"
where
  "cover_inv_values fuel h ro rv vs = (\<lambda>(path, r, l, p, attrs, r', t).
     flatten_values fuel h vs path r ro l p rv = Some (Inr (attrs, r', t)) \<longrightarrow>
     (\<exists>n. r' = r @ n \<and>
        (\<forall>k\<in>fst ` set n. tracked h k \<and>
            list_all (\<lambda>kv. covered h r' (snd kv)) (fst (node_flatten h k))) \<and>
        list_all (\<lambda>kv. covered h r' (snd kv)) vs))"

text \<open>The new object unflatten makes for an entry of the reference map, and the index map
  that goes with a reference map.\<close>

definition image_obj :: "heap \<Rightarrow> refmap \<Rightarrow> nat \<Rightarrow> val \<times> int \<Rightarrow> obj" where
  "image_obj h r base kv = rename_obj r base (h ! id_of (fst kv))"







text \<open>The heap after \<open>unflatten(*flatten(node))\<close> in the heap \<open>h\<close>, the copy of a value in
  it, the value found by following a path of keys, and a reference map that holds, with
  every object, the objects its children refer to.\<close>

definition copy_heap :: "heap \<Rightarrow> refmap \<Rightarrow> heap" where
  "copy_heap h r = h @ map (image_obj h r (length h)) r"

definition copy_of :: "heap \<Rightarrow> refmap \<Rightarrow> val \<Rightarrow> val" where
  "copy_of h r v = rename r (length h) v"


definition closed :: "heap \<Rightarrow> refmap \<Rightarrow> bool" where
  "closed h r \<longleftrightarrow> dense r \<and>
     (\<forall>k\<in>fst ` set r. tracked h k \<and>
         list_all (\<lambda>kv. covered h r (snd kv)) (fst (node_flatten h k)))"


fun count_noderefs :: "int \<Rightarrow> graphdef \<Rightarrow> nat"
and count_noderefs_attrs :: "int \<Rightarrow> (key \<times> graphdef) list \<Rightarrow> nat" where
  "count_noderefs i (NodeDef ty j oi attributes md) = count_noderefs_attrs i attributes"
| "count_noderefs i (VariableDef ty j oi md) = 0"
| "count_noderefs i (NodeRef ty j) = (if j = i then 1 else 0)"
| "count_noderefs i (Static x) = 0"
| "count_noderefs_attrs i [] = 0"
| "count_noderefs_attrs i (kd # kds) = count_noderefs i (snd kd) + count_noderefs_attrs i kds"




text \<open>What the fingerprint traversal reads of a value: whether it is a node or a Variable,
  its type, its children and metadata, the metadata of a Variable; not the value a Variable
  holds.  And the values found along a path of keys from a node.\<close>

definition view ::
  "heap \<Rightarrow> val \<Rightarrow> node_impl option \<times> bool \<times> pytype \<times> ((key \<times> val) list \<times> string) \<times> metadata"
where
  "view h v = (get_node_impl h v, is_variable h v, type_of h v, node_flatten h v, var_metadata h v)"

fun at_path :: "heap \<Rightarrow> val \<Rightarrow> path \<Rightarrow> val \<Rightarrow> bool" where
  "at_path h v [] w = (v = w)"
| "at_path h v (k # ks) w =
     list_ex (\<lambda>kv. fst kv = k \<and> at_path h (snd kv) ks w) (fst (node_flatten h v))"

text \<open>Two heaps in which a node and everything below it look the same give the node the
  same fingerprint.\<close>

definition stable_node ::
  "nat \<Rightarrow> heap \<Rightarrow> heap \<Rightarrow> refmap \<Rightarrow> val \<Rightarrow> node_impl \<times> refmap \<times> int \<Rightarrow> bool"
where
  "stable_node fuel h1 h2 ri node = (\<lambda>(impl, m, nx).
     (\<forall>p v. at_path h1 node p v \<longrightarrow> view h1 v = view h2 v) \<longrightarrow>
     graph_fingerprint fuel h1 node impl ri m nx = graph_fingerprint fuel h2 node impl ri m nx)"

definition stable_values ::
  "nat \<Rightarrow> heap \<Rightarrow> heap \<Rightarrow> refmap \<Rightarrow> (key \<times> val) list \<Rightarrow> refmap \<times> int \<Rightarrow> bool"
where
  "stable_values fuel h1 h2 ri vs = (\<lambda>(m, nx).
     (\<forall>kv\<in>set vs. \<forall>p v. at_path h1 (snd kv) p v \<longrightarrow> view h1 v = view h2 v) \<longrightarrow>
     fingerprint_values fuel h1 vs ri m nx = fingerprint_values fuel h2 vs ri m nx)"

text \<open>Two traversals with the same fingerprint, one in each heap, went the same way: a value
  is accounted for when it is in the map the traversals built or looks the same in both
  heaps and has no children.\<close>

fun fcov :: "heap \<Rightarrow> heap \<Rightarrow> refmap \<Rightarrow> val \<Rightarrow> bool" where
  "fcov h1 h2 M (Pytree ty items aux) = list_all (\<lambda>kv. fcov h1 h2 M (snd kv)) items"
| "fcov h1 h2 M v =
     (map_of M v \<noteq> None \<or> (view h1 v = view h2 v \<and> fst (node_flatten h1 v) = []))"

definition sens_node ::
  "nat \<Rightarrow> heap \<Rightarrow> heap \<Rightarrow> val \<Rightarrow>
   node_impl \<times> refmap \<times> int \<times> fingerprint \<times> refmap \<times> int \<times> nat \<times> val \<times> node_impl \<times> refmap \<times>
   int \<Rightarrow> bool"
where
  "sens_node f1 h1 h2 node1 = (\<lambda>(impl1, m, nx, fp, m1, x1, f2, node2, impl2, m2, x2).
     graph_fingerprint f1 h1 node1 impl1 [] m nx = Some (Inr (fp, m1, x1)) \<longrightarrow>
     graph_fingerprint f2 h2 node2 impl2 [] m nx = Some (Inr (fp, m2, x2)) \<longrightarrow>
     get_node_impl h1 node1 = Some impl1 \<longrightarrow> get_node_impl h2 node2 = Some impl2 \<longrightarrow>
     node2 = node1 \<and> m2 = m1 \<and> x2 = x1 \<and>
     (\<exists>n. m1 = m @ n \<and>
        (\<forall>k\<in>fst ` set n. view h1 k = view h2 k \<and>
            list_all (\<lambda>kv. fcov h1 h2 m1 (snd kv)) (fst (node_flatten h1 k)))) \<and>
     fcov h1 h2 m1 node1)"

definition sens_values ::
  "nat \<Rightarrow> heap \<Rightarrow> heap \<Rightarrow> (key \<times> val) list \<Rightarrow>
   refmap \<times> int \<times> fp_attribute list \<times> refmap \<times> int \<times> nat \<times> (key \<times> val) list \<times> refmap \<times> int
   \<Rightarrow> bool"
where
  "sens_values f1 h1 h2 vs1 = (\<lambda>(m, nx, attrs, m1, x1, f2, vs2, m2, x2).
     fingerprint_values f1 h1 vs1 [] m nx = Some (Inr (attrs, m1, x1)) \<longrightarrow>
     fingerprint_values f2 h2 vs2 [] m nx = Some (Inr (attrs, m2, x2)) \<longrightarrow>
     vs2 = vs1 \<and> m2 = m1 \<and> x2 = x1 \<and>
     (\<exists>n. m1 = m @ n \<and>
        (\<forall>k\<in>fst ` set n. view h1 k = view h2 k \<and>
            list_all (\<lambda>kv. fcov h1 h2 m1 (snd kv)) (fst (node_flatten h1 k)))) \<and>
     list_all (\<lambda>kv. fcov h1 h2 m1 (snd kv)) vs1)"

text \<open>With fuel above the bound, a call of the fingerprint traversal returns.\<close>

definition fp_returns_node ::
  "nat \<Rightarrow> heap \<Rightarrow> refmap \<Rightarrow> val \<Rightarrow> node_impl \<times> refmap \<times> int \<Rightarrow> bool"
where
  "fp_returns_node fuel h ri node = (\<lambda>(impl, m, nx).
     get_node_impl h node = Some impl \<longrightarrow> weight node + unvisited h (ri @ m) < fuel \<longrightarrow>
     (\<exists>res. graph_fingerprint fuel h node impl ri m nx = Some res \<and>
        (\<forall>fp m' x'. res = Inr (fp, m', x') \<longrightarrow> (\<exists>n. m' = m @ n))))"

definition fp_returns_values ::
  "nat \<Rightarrow> heap \<Rightarrow> refmap \<Rightarrow> (key \<times> val) list \<Rightarrow> refmap \<times> int \<Rightarrow> bool"
where
  "fp_returns_values fuel h ri vs = (\<lambda>(m, nx).
     weights vs + unvisited h (ri @ m) < fuel \<longrightarrow>
     (\<exists>res. fingerprint_values fuel h vs ri m nx = Some res \<and>
        (\<forall>attrs m' x'. res = Inr (attrs, m', x') \<longrightarrow> (\<exists>n. m' = m @ n))))"

section \<open>Example graphs\<close>

text \<open>A node whose attribute \<open>w\<close> is a raw array, and a node with a static attribute.\<close>

definition array_node_heap :: heap where
  "array_node_heap = [GraphNode ''M'' [(''w'', Array [1])]]"

definition static_node_heap :: heap where
  "static_node_heap = [GraphNode ''M'' [(''n'', Const 3)]]"

text \<open>\<open>m1 = nnx.Dict({})\<close>, and the context as the outer split of \<open>m1\<close> leaves it.\<close>

definition dict_heap :: heap where
  "dict_heap = [GraphNode ''Dict'' []]"

definition after_outer_split :: update_context where
  "after_outer_split =
     \<lparr>tag = ''example'', outer_ref_outer_index = Some [(Ref 0, 0)],
      outer_index_inner_ref = None, outer_index_outer_ref = Some [(0, Ref 0)],
      inner_ref_outer_index = None\<rparr>"

text \<open>A descriptor of a node with one Variable.\<close>

definition one_variable_def :: graphdef where
  "one_variable_def =
     NodeDef (GraphType ''M'') 0 None [(''w'', VariableDef (VariableType ''Param'') 1 None [])]
       ''M''"

text \<open>A node holding two distinct Variables with equal contents.\<close>

definition twin_heap :: heap where
  "twin_heap =
     [GraphNode ''M'' [(''p'', Ref 1), (''q'', Ref 2)],
      Variable ''Param'' (Array [1, 2]) [], Variable ''Param'' (Array [1, 2]) []]"

text \<open>A node whose child \<open>a\<close> holds a raw array as its attribute \<open>w\<close>.\<close>

definition nested_array_heap :: heap where
  "nested_array_heap = [GraphNode ''M'' [(''a'', Ref 1)], GraphNode ''N'' [(''w'', Array [1])]]"





text \<open>A node with one Variable; the same after the Variable got a new value, after its
  metadata changed, and after the node got one more attribute.\<close>

definition value_heap :: heap where
  "value_heap = [GraphNode ''M'' [(''p'', Ref 1)], Variable ''Param'' (Array [1, 2]) [(''tag'', 7)]]"

definition new_value_heap :: heap where
  "new_value_heap =
     [GraphNode ''M'' [(''p'', Ref 1)], Variable ''Param'' (Array [3, 4]) [(''tag'', 7)]]"

definition new_metadata_heap :: heap where
  "new_metadata_heap =
     [GraphNode ''M'' [(''p'', Ref 1)], Variable ''Param'' (Array [1, 2]) [(''tag'', 8)]]"

definition new_attribute_heap :: heap where
  "new_attribute_heap =
     [GraphNode ''M'' [(''p'', Ref 1), (''n'', Const 3)],
      Variable ''Param'' (Array [1, 2]) [(''tag'', 7)]]"

section \<open>Reasoning about the flatten traversal\<close>

lemma attributes_append_Inr:
  "attributes_append kd r = Some (Inr (as, s)) \<longleftrightarrow>
     (\<exists>as'. as = kd # as' \<and> r = Some (Inr (as', s)))"
  by (cases "(kd, r)" rule: attributes_append.cases) auto

lemma attributes_append_Inl:
  "attributes_append kd r = Some (Inl e) \<longleftrightarrow> r = Some (Inl e)"
  by (cases "(kd, r)" rule: attributes_append.cases) auto

lemma attributes_append_None:
  "attributes_append kd r = None \<longleftrightarrow> r = None"
  by (cases "(kd, r)" rule: attributes_append.cases) auto

lemma traversal_induct:
  fixes P :: "nat \<Rightarrow> val \<Rightarrow> 'a \<Rightarrow> bool" and Q :: "nat \<Rightarrow> (key \<times> val) list \<Rightarrow> 'b \<Rightarrow> bool"
  assumes g0: "\<And>node s. P 0 node s"
    and gS: "\<And>fuel node s. (\<And>vs t. Q fuel vs t) \<Longrightarrow> P (Suc fuel) node s"
    and v0: "\<And>fuel s. Q fuel [] s"
    and vC: "\<And>fuel key value values s.
               (\<And>t. P fuel value t) \<Longrightarrow> (\<And>t. Q fuel values t) \<Longrightarrow>
               Q fuel ((key, value) # values) s"
  shows "P fuel node s" and "Q fuel values s'"
proof -
  have step: "\<And>values s. Q fuel values s" if "\<And>node s. P fuel node s" for fuel
  proof -
    fix "values" s
    show "Q fuel values s"
    proof (induction "values" arbitrary: s)
      case Nil
      show ?case by (rule v0)
    next
      case (Cons kv "values")
      obtain key "value" where "kv = (key, value)" by (cases kv)
      then show ?case using vC that Cons.IH by blast
    qed
  qed
  have all: "\<And>node s. P fuel node s"
  proof (induction fuel)
    case 0
    show ?case by (rule g0)
  next
    case (Suc fuel)
    show ?case by (rule gS) (rule step, rule Suc.IH)
  qed
  show "P fuel node s" by (rule all)
  show "Q fuel values s'" by (rule step) (rule all)
qed


lemma graph_flatten_SucE [consumes 1, case_names NodeRef NodeDef]:
  assumes "graph_flatten (Suc fuel) h node impl path r ro l p rv = Some (Inr (gd, s))"
  obtains (NodeRef) i where "impl \<noteq> PytreeNodeImpl" "map_of r node = Some i"
      "gd = NodeRef (type_of h node) i" "s = (r, l, p)"
  | (NodeDef) attrs where "impl = PytreeNodeImpl \<or> map_of r node = None"
      "flatten_values fuel h (fst (node_flatten h node)) path
         (if impl = GraphNodeImpl then AList.update node (int (length r)) r else r)
         ro l p rv = Some (Inr (attrs, s))"
      "gd = NodeDef (type_of h node) (if impl = GraphNodeImpl then int (length r) else - 1)
              (if impl = GraphNodeImpl then outer_index_of ro node else None)
              attrs (snd (node_flatten h node))"
proof (cases "impl \<noteq> PytreeNodeImpl \<and> map_of r node \<noteq> None")
  case True
  with assms NodeRef show ?thesis by auto
next
  case False
  show ?thesis
  proof (cases "impl = GraphNodeImpl")
    case True
    with False assms NodeDef show ?thesis
      by (auto simp: Let_def split: option.splits sum.splits prod.splits)
  next
    case False': False
    with False assms NodeDef show ?thesis
      by (auto simp: Let_def split: option.splits sum.splits prod.splits)
  qed
qed

lemma flatten_values_ConsE [consumes 1, case_names Node VarRef Var Static]:
  assumes "flatten_values fuel h ((key, value) # values) path r ro l p rv
             = Some (Inr (attrs, s))"
  obtains (Node) impl d r1 l1 p1 attrs' where
      "get_node_impl h value = Some impl"
      "graph_flatten fuel h value impl (map_option (\<lambda>p. p @ [key]) path) r ro l p rv
         = Some (Inr (d, r1, l1, p1))"
      "flatten_values fuel h values path r1 ro l1 p1 rv = Some (Inr (attrs', s))"
      "attrs = (key, d) # attrs'"
  | (VarRef) i attrs' where
      "get_node_impl h value = None" "is_variable h value" "map_of r value = Some i"
      "flatten_values fuel h values path r ro l p rv = Some (Inr (attrs', s))"
      "attrs = (key, NodeRef (type_of h value) i) # attrs'"
  | (Var) attrs' where
      "get_node_impl h value = None" "is_variable h value" "map_of r value = None"
      "flatten_values fuel h values path (AList.update value (int (length r)) r) ro
         (l @ [if rv then Leaf value else if path = None then Leaf (raw_value h value)
               else to_state h value])
         (case map_option (\<lambda>p. p @ [key]) path of None \<Rightarrow> p
          | Some q \<Rightarrow> map_option (\<lambda>ps. ps @ [q]) p) rv = Some (Inr (attrs', s))"
      "attrs = (key, VariableDef (type_of h value) (int (length r))
                  (outer_index_of ro value) (var_metadata h value)) # attrs'"
  | (Static) attrs' where
      "get_node_impl h value = None" "\<not> is_variable h value" "\<not> is_array value"
      "flatten_values fuel h values path r ro l p rv = Some (Inr (attrs', s))"
      "attrs = (key, Static value) # attrs'"
proof (cases "get_node_impl h value")
  case (Some impl)
  with assms Node show ?thesis
    by (simp add: Let_def attributes_append_Inr split: option.splits sum.splits prod.splits) blast
next
  case None
  show ?thesis
  proof (cases "is_variable h value")
    case True
    show ?thesis
    proof (cases "map_of r value")
      case None': None
      with assms None True Var show ?thesis
        by (simp add: Let_def attributes_append_Inr) blast
    next
      case (Some i)
      with assms None True VarRef show ?thesis
        by (simp add: Let_def attributes_append_Inr) blast
    qed
  next
    case False
    with assms None Static show ?thesis
      by (simp add: Let_def attributes_append_Inr split: if_splits) blast
  qed
qed

lemma flatten_no_static_array:
  "graph_flatten fuel h node node_impl path ref_index ro leaves paths rv
     = Some (Inr (gd, s)) \<Longrightarrow> \<not> has_static_array gd"
  "flatten_values fuel h values path' ref_index' ro leaves' paths' rv
     = Some (Inr (attrs, s')) \<Longrightarrow> \<not> list_ex (\<lambda>kd. has_static_array (snd kd)) attrs"
proof -
  let ?P = "\<lambda>fuel node (node_impl, path, ref_index, leaves, paths, gd, s).
     graph_flatten fuel h node node_impl path ref_index ro leaves paths rv
     = Some (Inr (gd, s)) \<longrightarrow> \<not> has_static_array gd"
  let ?Q = "\<lambda>fuel values (path, ref_index, leaves, paths, attrs, s). flatten_values fuel h values path ref_index ro leaves paths rv
     = Some (Inr (attrs, s)) \<longrightarrow> \<not> list_ex (\<lambda>kd. has_static_array (snd kd)) attrs"
  have "?P fuel node (node_impl, path, ref_index, leaves, paths, gd, s)"
   and "?Q fuel values (path', ref_index', leaves', paths', attrs, s')"
  proof (induction fuel node "(node_impl, path, ref_index, leaves, paths, gd, s)" and fuel "values" "(path', ref_index', leaves', paths', attrs, s')" 
      arbitrary: node_impl path ref_index leaves paths gd s and path' ref_index' leaves' paths' attrs s' rule: traversal_induct)
    case (1 node)
    then show ?case by simp
  next
    case (2 fuel node)
    show ?case  
    proof (clarify)
      assume a: "graph_flatten (Suc fuel) h node node_impl path ref_index ro leaves paths rv = Some (Inr (gd, s))"
        and b: "has_static_array gd"
      from a b show False
        by (cases rule: graph_flatten_SucE) (use 2 in auto)
    qed
  next
    case (3 fuel)
    then show ?case by simp
  next
    case (4 fuel key "value" "values")
    show ?case 
    proof (clarify)
      assume a: "flatten_values fuel h ((key, value) # values) path' ref_index' ro leaves' paths' rv = Some (Inr (attrs, s'))"
        and b: "list_ex (\<lambda>kd. has_static_array (snd kd)) attrs"
      from a b show False
        by (cases rule: flatten_values_ConsE) (use 4 in auto)
    qed
  qed
  then show  "graph_flatten fuel h node node_impl path ref_index ro leaves paths rv
     = Some (Inr (gd, s)) \<Longrightarrow> \<not> has_static_array gd"
  "flatten_values fuel h values path' ref_index' ro leaves' paths' rv
     = Some (Inr (attrs, s')) \<Longrightarrow> \<not> list_ex (\<lambda>kd. has_static_array (snd kd)) attrs" by auto
qed

lemma graph_flatten_Suc_InlE:
  assumes "graph_flatten (Suc fuel) h node impl path r ro l p rv = Some (Inl e)"
  obtains r1 where
    "flatten_values fuel h (fst (node_flatten h node)) path r1 ro l p rv = Some (Inl e)"
proof (cases "impl \<noteq> PytreeNodeImpl \<and> map_of r node \<noteq> None")
  case True
  with assms show ?thesis by auto
next
  case False
  with assms that show ?thesis
    by (cases "impl = GraphNodeImpl")
       (auto simp: Let_def split: option.splits sum.splits)
qed

lemma flatten_values_Cons_InlE [consumes 1, case_names Child Array Rest]:
  assumes "flatten_values fuel h ((key, value) # values) path r ro l p rv = Some (Inl e)"
  obtains (Child) impl where "get_node_impl h value = Some impl"
      "graph_flatten fuel h value impl (map_option (\<lambda>p. p @ [key]) path) r ro l p rv
         = Some (Inl e)"
  | (Array) "is_array value" "e = ArrayLeaf (map_option (\<lambda>p. p @ [key]) path)"
  | (Rest) r1 l1 p1 where
      "flatten_values fuel h values path r1 ro l1 p1 rv = Some (Inl e)"
proof (cases "get_node_impl h value")
  case (Some impl)
  with assms Child Rest show ?thesis
    by (auto simp: Let_def attributes_append_Inl split: option.splits sum.splits prod.splits)
next
  case None
  show ?thesis
  proof (cases "is_variable h value")
    case True
    show ?thesis
    proof (cases "map_of r value")
      case None': None
      with assms None True Rest show ?thesis
        by (auto simp: Let_def attributes_append_Inl)
    next
      case (Some i)
      with assms None True Rest show ?thesis
        by (auto simp: Let_def attributes_append_Inl)
    qed
  next
    case False
    show ?thesis
    proof (cases "is_array value")
      case True
      with assms None False Array show ?thesis by (simp add: Let_def)
    next
      case False': False
      with assms None False Rest show ?thesis
        by (auto simp: Let_def attributes_append_Inl)
    qed
  qed
qed

lemma flatten_InrD:
  assumes "flatten fuel h node with_paths rv ri ro = Some (Inr (gd, st, r))"
  shows "\<exists>impl leaves paths.
           get_node_impl h node = Some impl \<and>
           graph_flatten fuel h node impl (if with_paths then Some [] else None)
             (case ri of None \<Rightarrow> [] | Some r \<Rightarrow> r) ro []
             (if with_paths then Some [] else None) rv = Some (Inr (gd, r, leaves, paths)) \<and>
           st = (case paths of Some ps \<Rightarrow> FlatState (zip ps leaves)
                 | None \<Rightarrow> LeafList leaves)"
proof (cases "get_node_impl h node")
  case None
  with assms show ?thesis by (simp add: flatten_def)
next
  case (Some impl)
  let ?g = "graph_flatten fuel h node impl (if with_paths then Some [] else None)
             (case ri of None \<Rightarrow> [] | Some r \<Rightarrow> r) ro []
             (if with_paths then Some [] else None) rv"
  from assms Some obtain leaves paths where g: "?g = Some (Inr (gd, r, leaves, paths))"
    by (cases ?g) (auto simp: flatten_def split: sum.splits)
  with assms Some have
    "st = (case paths of Some ps \<Rightarrow> FlatState (zip ps leaves) | None \<Rightarrow> LeafList leaves)"
    by (simp add: flatten_def)
  with g Some show ?thesis by blast
qed

lemma flatten_InlD:
  assumes "flatten fuel h node with_paths rv ri ro = Some (Inl e)"
  shows "(get_node_impl h node = None \<and> e = UnsupportedType) \<or>
         (\<exists>impl. get_node_impl h node = Some impl \<and>
           graph_flatten fuel h node impl (if with_paths then Some [] else None)
             (case ri of None \<Rightarrow> [] | Some r \<Rightarrow> r) ro []
             (if with_paths then Some [] else None) rv = Some (Inl e))"
proof (cases "get_node_impl h node")
  case None
  with assms show ?thesis by (simp add: flatten_def)
next
  case (Some impl)
  with assms show ?thesis
    by (cases with_paths)
       (auto simp: flatten_def split: option.splits sum.splits)
qed

lemma update_fresh: "map_of r k = None \<Longrightarrow> AList.update k v r = r @ [(k, v)]"
  by (induction r) (auto split: if_splits)

lemma dense_Nil: "dense []"
  by (simp add: dense_def)

lemma dense_snoc: "dense r \<Longrightarrow> map_of r k = None \<Longrightarrow> dense (r @ [(k, int (length r))])"
  by (auto simp: dense_def map_of_eq_None_iff)

lemma map_of_prefix: "map_of r k = Some i \<Longrightarrow> map_of (r @ n) k = Some i"
  by (simp add: map_add_def)

lemma dense_inj:
  assumes "dense r" "map_of r a = Some i" "map_of r b = Some i"
  shows "a = b"
proof -
  from assms(1) have d: "distinct (map fst r)" and s: "distinct (map snd r)"
    by (simp_all add: dense_def distinct_map inj_on_def)
  from assms(2,3) have m: "(a, i) \<in> set r" "(b, i) \<in> set r"
    by (auto dest: map_of_SomeD)
  from s have "inj_on snd (set r)" by (simp add: distinct_map)
  from inj_onD[OF this _ m] show ?thesis by simp
qed

lemma graph_node_in_heap: "get_node_impl h (Ref a) = Some GraphNodeImpl \<Longrightarrow> a < length h"
  by (cases "a < length h") auto

lemma graph_node_is_ref: "get_node_impl h node = Some GraphNodeImpl \<Longrightarrow> \<exists>a. node = Ref a \<and> a < length h"
proof (cases node)
  case (Ref a)
  assume "get_node_impl h node = Some GraphNodeImpl"
  with Ref graph_node_in_heap[of h a] show ?thesis by blast
qed simp_all

lemma variable_is_ref:
  "is_variable h v \<Longrightarrow> \<exists>a ty raw md. v = Ref a \<and> a < length h \<and> h ! a = Variable ty raw md"
  by (cases v) (auto split: option.splits obj.splits if_splits)

lemma slots_agree_prefix:
  "slots_agree h r v d \<Longrightarrow> slots_agree h (r @ n) v d"
  "slots_agree_attrs h r vs ds \<Longrightarrow> slots_agree_attrs h (r @ n) vs ds"
proof (induction h r v d and h r vs ds rule: slots_agree_slots_agree_attrs.induct)
qed (auto simp: map_of_prefix split: option.splits node_impl.splits
          simp del: map_of_append is_variable.simps get_node_impl.simps)

lemma slot_inv:
  "slot_inv_node fuel h ro rv node s" "slot_inv_values fuel h ro rv vs s'"
proof (induction fuel node s and fuel vs s' rule: traversal_induct)
  case (1 node s)
  show ?case by (cases s) (auto simp: slot_inv_node_def)
next
  case (2 fuel node s)
  obtain impl path r l p gd r' t where s: "s = (impl, path, r, l, p, gd, r', t)"
    by (cases s) auto
  show ?case
    unfolding s slot_inv_node_def prod.case
  proof (intro impI)
    assume g: "graph_flatten (Suc fuel) h node impl path r ro l p rv = Some (Inr (gd, r', t))"
      and impl: "get_node_impl h node = Some impl"
      and d: "dense r"
    from g show "dense r' \<and> (\<exists>n. r' = r @ n) \<and> slots_agree h r' node gd"
    proof (cases rule: graph_flatten_SucE)
      case (NodeRef i)
      from NodeRef(1) impl have "get_node_impl h node = Some GraphNodeImpl" by (cases impl) auto
      with NodeRef d show ?thesis by (simp del: get_node_impl.simps is_variable.simps)
    next
      case (NodeDef attrs)
      let ?r1 = "if impl = GraphNodeImpl then AList.update node (int (length r)) r else r"
      have r1: "?r1 = (if impl = GraphNodeImpl then r @ [(node, int (length r))] else r)"
        using NodeDef(1) by (cases impl) (auto simp: update_fresh)
      have d1: "dense ?r1"
        using NodeDef(1) d unfolding r1 by (cases impl) (auto intro: dense_snoc)
      from 2[of "fst (node_flatten h node)" "(path, ?r1, l, p, attrs, r', t)"] NodeDef(2) d1
      have a: "dense r'" "\<exists>n. r' = ?r1 @ n"
        "slots_agree_attrs h r' (fst (node_flatten h node)) attrs"
        unfolding slot_inv_values_def by auto
      from a(2) have pre: "\<exists>n. r' = r @ n" unfolding r1 by (cases impl) auto
      have "impl = GraphNodeImpl \<Longrightarrow> map_of r' node = Some (int (length r))"
        using a(2) NodeDef(1) unfolding r1 by (auto simp: map_add_def)
      with a pre NodeDef(3) impl show ?thesis
        by (cases impl) (auto simp del: get_node_impl.simps is_variable.simps)
    qed
  qed
next
  case (3 fuel s)
  show ?case by (cases s) (auto simp: slot_inv_values_def)
next
  case (4 fuel key "value" "values" s)
  obtain path r l p attrs r' t where s: "s = (path, r, l, p, attrs, r', t)"
    by (cases s) auto
  show ?case
    unfolding s slot_inv_values_def prod.case
  proof (intro impI)
    assume g: "flatten_values fuel h ((key, value) # values) path r ro l p rv
                 = Some (Inr (attrs, r', t))"
      and d: "dense r"
    from g show "dense r' \<and> (\<exists>n. r' = r @ n) \<and>
                 slots_agree_attrs h r' ((key, value) # values) attrs"
    proof (cases rule: flatten_values_ConsE)
      case (Node impl gd r1 l1 p1 attrs')
      from 4(1)[of "(impl, map_option (\<lambda>p. p @ [key]) path, r, l, p, gd, r1, l1, p1)"]
        Node(1,2) d
      have a: "dense r1" "\<exists>n. r1 = r @ n" "slots_agree h r1 value gd"
        unfolding slot_inv_node_def by auto
      from 4(2)[of "(path, r1, l1, p1, attrs', r', t)"] Node(3) a(1)
      have b: "dense r'" "\<exists>n. r' = r1 @ n" "slots_agree_attrs h r' values attrs'"
        unfolding slot_inv_values_def by auto
      from a(3) b(2) have "slots_agree h r' value gd"
        by (auto intro: slots_agree_prefix(1))
      with a(2) b Node(4) show ?thesis by auto
    next
      case (VarRef i attrs')
      from 4(2)[of "(path, r, l, p, attrs', r', t)"] VarRef(4) d
      have b: "dense r'" "\<exists>n. r' = r @ n" "slots_agree_attrs h r' values attrs'"
        unfolding slot_inv_values_def by auto
      from b(2) VarRef(3) have "map_of r' value = Some i" by (auto simp: map_add_def)
      with b VarRef(2,5) show ?thesis by (auto simp del: get_node_impl.simps is_variable.simps)
    next
      case (Var attrs')
      let ?r1 = "AList.update value (int (length r)) r"
      have r1: "?r1 = r @ [(value, int (length r))]" using Var(3) by (rule update_fresh)
      have d1: "dense ?r1" unfolding r1 using d Var(3) by (rule dense_snoc)
      from 4(2)[of "(path, ?r1, l @ [if rv then Leaf value else if path = None
                       then Leaf (raw_value h value) else to_state h value],
                     (case map_option (\<lambda>p. p @ [key]) path of None \<Rightarrow> p
                      | Some q \<Rightarrow> map_option (\<lambda>ps. ps @ [q]) p), attrs', r', t)"] Var(4) d1
      have b: "dense r'" "\<exists>n. r' = ?r1 @ n" "slots_agree_attrs h r' values attrs'"
        unfolding slot_inv_values_def by auto
      from b(2) Var(3) have "map_of r' value = Some (int (length r))"
        unfolding r1 by (auto simp: map_add_def)
      moreover from b(2) have "\<exists>n. r' = r @ n" unfolding r1 by auto
      ultimately show ?thesis using b Var(2,5)
        by (auto simp del: get_node_impl.simps is_variable.simps)
    next
      case (Static attrs')
      from 4(2)[of "(path, r, l, p, attrs', r', t)"] Static(4) d
      have b: "dense r'" "\<exists>n. r' = r @ n" "slots_agree_attrs h r' values attrs'"
        unfolding slot_inv_values_def by auto
      with Static(1,2,5) show ?thesis by (auto simp del: get_node_impl.simps is_variable.simps)
    qed
  qed
qed

lemma names_array_node:
  "names_array_values h (fst (node_flatten h node)) path e \<Longrightarrow> names_array h node path e"
  by (cases e; cases path)
     (auto simp: names_array_def names_array_values_def split: option.splits list.splits)

lemma names_array_child:
  assumes "names_array h v (map_option (\<lambda>p. p @ [key]) path) e"
  shows "names_array_values h ((key, v) # vs) path e"
proof (cases e)
  case (ArrayLeaf q)
  show ?thesis
  proof (cases path)
    case None
    with assms ArrayLeaf show ?thesis by (simp add: names_array_def names_array_values_def)
  next
    case (Some p0)
    with assms ArrayLeaf obtain p where q: "q = Some p"
      and t: "take (Suc (length p0)) p = p0 @ [key]"
      and a: "array_at h v (drop (Suc (length p0)) p)"
      by (auto simp: names_array_def split: option.splits)
    define rest where "rest = drop (Suc (length p0)) p"
    have "take (Suc (length p0)) p @ rest = p" unfolding rest_def by (rule append_take_drop_id)
    with t have p: "p = p0 @ key # rest" by simp
    from a have "array_at h v rest" by (simp add: rest_def)
    with p q ArrayLeaf Some show ?thesis by (simp add: names_array_values_def)
  qed
qed (use assms in \<open>auto simp: names_array_def\<close>)

lemma names_array_rest:
  "names_array_values h vs path e \<Longrightarrow> names_array_values h (kv # vs) path e"
  by (cases e; cases path)
     (auto simp: names_array_values_def split: option.splits list.splits)

lemma names_array_here:
  "is_array v \<Longrightarrow>
     names_array_values h ((key, v) # vs) path (ArrayLeaf (map_option (\<lambda>p. p @ [key]) path))"
  by (cases path) (auto simp: names_array_values_def)

lemma error_inv:
  "error_inv_node fuel h ro rv node s" "error_inv_values fuel h ro rv vs s'"
proof (induction fuel node s and fuel vs s' rule: traversal_induct)
  case (1 node s)
  show ?case by (cases s) (auto simp: error_inv_node_def)
next
  case (2 fuel node s)
  obtain impl path r l p e where s: "s = (impl, path, r, l, p, e)" by (cases s) auto
  show ?case
    unfolding s error_inv_node_def prod.case
  proof (intro impI)
    assume "graph_flatten (Suc fuel) h node impl path r ro l p rv = Some (Inl e)"
    then obtain r1 where
      "flatten_values fuel h (fst (node_flatten h node)) path r1 ro l p rv = Some (Inl e)"
      by (rule graph_flatten_Suc_InlE)
    with 2[of "fst (node_flatten h node)" "(path, r1, l, p, e)"]
    have "names_array_values h (fst (node_flatten h node)) path e"
      unfolding error_inv_values_def by simp
    then show "names_array h node path e" by (rule names_array_node)
  qed
next
  case (3 fuel s)
  show ?case by (cases s) (auto simp: error_inv_values_def)
next
  case (4 fuel key "value" "values" s)
  obtain path r l p e where s: "s = (path, r, l, p, e)" by (cases s) auto
  show ?case
    unfolding s error_inv_values_def prod.case
  proof (intro impI)
    assume "flatten_values fuel h ((key, value) # values) path r ro l p rv = Some (Inl e)"
    then show "names_array_values h ((key, value) # values) path e"
    proof (cases rule: flatten_values_Cons_InlE)
      case (Child impl)
      with 4(1)[of "(impl, map_option (\<lambda>p. p @ [key]) path, r, l, p, e)"]
      have "names_array h value (map_option (\<lambda>p. p @ [key]) path) e"
        unfolding error_inv_node_def by simp
      then show ?thesis by (rule names_array_child)
    next
      case Array
      then show ?thesis by (simp add: names_array_here)
    next
      case (Rest r1 l1 p1)
      with 4(2)[of "(path, r1, l1, p1, e)"]
      have "names_array_values h values path e" unfolding error_inv_values_def by simp
      then show ?thesis by (rule names_array_rest)
    qed
  qed
qed

section \<open>Reasoning about the fingerprint traversal\<close>

lemma fp_append_Inr:
  "fp_append x r = Some (Inr (as, s)) \<longleftrightarrow> (\<exists>as'. as = x # as' \<and> r = Some (Inr (as', s)))"
  by (cases "(x, r)" rule: fp_append.cases) auto

lemma fp_append_Inl: "fp_append x r = Some (Inl e) \<longleftrightarrow> r = Some (Inl e)"
  by (cases "(x, r)" rule: fp_append.cases) auto

lemma fp_append_None: "fp_append x r = None \<longleftrightarrow> r = None"
  by (cases "(x, r)" rule: fp_append.cases) auto

lemma graph_fingerprint_SucE [consumes 1, case_names Old Seen New]:
  assumes "graph_fingerprint (Suc fuel) h node impl ri m nx = Some (Inr (fp, s))"
  obtains (Old) i where "impl \<noteq> PytreeNodeImpl" "map_of ri node = Some i"
      "fp = FpRef (id_of node) (type_of h node) i" "s = (m, nx)"
  | (Seen) i where "impl \<noteq> PytreeNodeImpl" "map_of ri node = None" "map_of m node = Some i"
      "fp = FpRef (id_of node) (type_of h node) i" "s = (m, nx)"
  | (New) attrs where "impl = PytreeNodeImpl \<or> (map_of ri node = None \<and> map_of m node = None)"
      "fingerprint_values fuel h (fst (node_flatten h node)) ri
         (if impl = GraphNodeImpl then AList.update node nx m else m)
         (if impl = GraphNodeImpl then nx + 1 else nx) = Some (Inr (attrs, s))"
      "fp = FpNode (if impl = GraphNodeImpl then Some (id_of node) else None) (type_of h node)
              (if impl = GraphNodeImpl then nx else - 1) attrs (snd (node_flatten h node))"
proof (cases "impl \<noteq> PytreeNodeImpl \<and> map_of ri node \<noteq> None")
  case True
  with assms Old show ?thesis by auto
next
  case False
  show ?thesis
  proof (cases "impl \<noteq> PytreeNodeImpl \<and> map_of m node \<noteq> None")
    case True
    with False assms Seen show ?thesis by auto
  next
    case False': False
    show ?thesis
    proof (cases "impl = GraphNodeImpl")
      case True
      with False False' assms New show ?thesis
        by (auto simp: Let_def split: option.splits sum.splits prod.splits)
    next
      case False'': False
      with False False' assms New show ?thesis
        by (auto simp: Let_def split: option.splits sum.splits prod.splits)
    qed
  qed
qed

lemma fingerprint_values_ConsE [consumes 1, case_names Node VarOld VarSeen Var Static]:
  assumes "fingerprint_values fuel h ((key, value) # values) ri m nx = Some (Inr (attrs, s))"
  obtains (Node) impl fp m1 nx1 attrs' where
      "get_node_impl h value = Some impl"
      "graph_fingerprint fuel h value impl ri m nx = Some (Inr (fp, m1, nx1))"
      "fingerprint_values fuel h values ri m1 nx1 = Some (Inr (attrs', s))"
      "attrs = FpSub key fp # attrs'"
  | (VarOld) i attrs' where
      "get_node_impl h value = None" "is_variable h value" "map_of ri value = Some i"
      "fingerprint_values fuel h values ri m nx = Some (Inr (attrs', s))"
      "attrs = FpVarRef key (id_of value) (type_of h value) i # attrs'"
  | (VarSeen) i attrs' where
      "get_node_impl h value = None" "is_variable h value" "map_of ri value = None"
      "map_of m value = Some i"
      "fingerprint_values fuel h values ri m nx = Some (Inr (attrs', s))"
      "attrs = FpVarRef key (id_of value) (type_of h value) i # attrs'"
  | (Var) attrs' where
      "get_node_impl h value = None" "is_variable h value" "map_of ri value = None"
      "map_of m value = None"
      "fingerprint_values fuel h values ri (AList.update value nx m) (nx + 1)
         = Some (Inr (attrs', s))"
      "attrs = FpVar key (id_of value) (type_of h value) nx (var_metadata h value) # attrs'"
  | (Static) attrs' where
      "get_node_impl h value = None" "\<not> is_variable h value" "\<not> is_array value"
      "fingerprint_values fuel h values ri m nx = Some (Inr (attrs', s))"
      "attrs = FpStatic key value # attrs'"
proof (cases "get_node_impl h value")
  case (Some impl)
  with assms Node show ?thesis
    by (simp add: fp_append_Inr split: option.splits sum.splits prod.splits) blast
next
  case None
  show ?thesis
  proof (cases "is_variable h value")
    case True
    show ?thesis
    proof (cases "map_of ri value")
      case (Some i)
      with assms None True VarOld show ?thesis by (simp add: fp_append_Inr) blast
    next
      case None': None
      show ?thesis
      proof (cases "map_of m value")
        case (Some i)
        with assms None True None' VarSeen show ?thesis by (simp add: fp_append_Inr) blast
      next
        case None'': None
        with assms None True None' Var show ?thesis by (simp add: fp_append_Inr) blast
      qed
    qed
  next
    case False
    with assms None Static show ?thesis
      by (simp add: fp_append_Inr split: if_splits) blast
  qed
qed

lemma dense_from_snoc:
  "dense_from k m \<Longrightarrow> map_of m v = None \<Longrightarrow> dense_from k (m @ [(v, int (k + length m))])"
  by (auto simp: dense_from_def map_of_eq_None_iff)

lemma look_prefix: "look ri m v = Some i \<Longrightarrow> look ri (m @ n) v = Some i"
  by (auto simp: look_def map_add_def split: option.splits)

lemma fp_agree_prefix:
  "fp_agree h ri m v fp \<Longrightarrow> fp_agree h ri (m @ n) v fp"
  "fp_agree_attrs h ri m vs xs \<Longrightarrow> fp_agree_attrs h ri (m @ n) vs xs"
  "fp_agree_attr h ri m kv x \<Longrightarrow> fp_agree_attr h ri (m @ n) kv x"
proof (induction h ri m v fp and h ri m vs xs and h ri m kv x
       rule: fp_agree_fp_agree_attrs_fp_agree_attr.induct)
qed (auto simp: look_prefix split: option.splits node_impl.splits
          simp del: is_variable.simps get_node_impl.simps)

lemma look_inj:
  assumes "dense ri" "dense_from (length ri) m" "look ri m a = Some i" "look ri m b = Some i"
  shows "a = b"
proof -
  have ri: "0 \<le> j \<and> j < int (length ri)" if "map_of ri v = Some j" for v j
  proof -
    from that have "j \<in> set (map snd ri)" by (auto dest!: map_of_SomeD intro: rev_image_eqI)
    with assms(1) show ?thesis by (auto simp: dense_def)
  qed
  have m: "int (length ri) \<le> j" if "map_of m v = Some j" for v j
  proof -
    from that have "j \<in> set (map snd m)" by (auto dest!: map_of_SomeD intro: rev_image_eqI)
    with assms(2) show ?thesis by (auto simp: dense_from_def)
  qed
  have inj_m: "u = v" if "map_of m u = Some j" "map_of m v = Some j" for u v j
  proof -
    from assms(2) have "distinct (map snd m)" by (simp add: dense_from_def distinct_map inj_on_def)
    then have i: "inj_on snd (set m)" by (simp add: distinct_map)
    from that have mem: "(u, j) \<in> set m" "(v, j) \<in> set m" by (auto dest: map_of_SomeD)
    from inj_onD[OF i _ mem] show ?thesis by simp
  qed
  show ?thesis
  proof (cases "map_of ri a")
    case None
    with assms(3) have a: "map_of m a = Some i" by (simp add: look_def)
    show ?thesis
    proof (cases "map_of ri b")
      case None': None
      with assms(4) have "map_of m b = Some i" by (simp add: look_def)
      with a show ?thesis by (rule inj_m)
    next
      case (Some j)
      with assms(4) have "map_of ri b = Some i" by (simp add: look_def)
      with ri[of b i] m[OF a] show ?thesis by simp
    qed
  next
    case (Some j)
    with assms(3) have a: "map_of ri a = Some i" by (simp add: look_def)
    show ?thesis
    proof (cases "map_of ri b")
      case None
      with assms(4) have "map_of m b = Some i" by (simp add: look_def)
      with ri[OF a] m[of b i] show ?thesis by simp
    next
      case Some': (Some j')
      with assms(4) have "map_of ri b = Some i" by (simp add: look_def)
      with assms(1) a show ?thesis by (rule dense_inj)
    qed
  qed
qed

lemma fp_inv:
  "fp_inv_node fuel h ri node s" "fp_inv_values fuel h ri vs s'"
proof (induction fuel node s and fuel vs s' rule: traversal_induct)
  case (1 node s)
  show ?case by (cases s) (auto simp: fp_inv_node_def)
next
  case (2 fuel node s)
  obtain impl m nx fp m' nx' where s: "s = (impl, m, nx, fp, m', nx')" by (cases s) auto
  show ?case
    unfolding s fp_inv_node_def prod.case
  proof (intro impI)
    assume g: "graph_fingerprint (Suc fuel) h node impl ri m nx = Some (Inr (fp, m', nx'))"
      and impl: "get_node_impl h node = Some impl"
      and d: "dense_from (length ri) m" and nx: "nx = int (length ri + length m)"
    let ?goal = "(\<exists>n. m' = m @ n) \<and> dense_from (length ri) m' \<and>
                 nx' = int (length ri + length m') \<and> fp_agree h ri m' node fp"
    from g show ?goal
    proof (cases rule: graph_fingerprint_SucE)
      case (Old i)
      from Old(1) impl have gi: "get_node_impl h node = Some GraphNodeImpl" by (cases impl) auto
      from graph_node_is_ref[OF gi] obtain a where a: "node = Ref a" by auto
      from Old d nx gi a show ?thesis by (simp add: look_def del: get_node_impl.simps)
    next
      case (Seen i)
      from Seen(1) impl have gi: "get_node_impl h node = Some GraphNodeImpl" by (cases impl) auto
      from graph_node_is_ref[OF gi] obtain a where a: "node = Ref a" by auto
      from Seen d nx gi a show ?thesis by (simp add: look_def del: get_node_impl.simps)
    next
      case (New attrs)
      show ?thesis
      proof (cases impl)
        case GraphNodeImpl
        with New(1) have fresh: "map_of ri node = None" "map_of m node = None" by simp_all
        from impl GraphNodeImpl obtain a where a: "node = Ref a"
          by (auto dest: graph_node_is_ref)
        let ?m1 = "m @ [(node, nx)]"
        have m1: "AList.update node nx m = ?m1" using fresh(2) by (rule update_fresh)
        have d1: "dense_from (length ri) ?m1" unfolding nx using d fresh(2) by (rule dense_from_snoc)
        from New(2) GraphNodeImpl m1
        have fv: "fingerprint_values fuel h (fst (node_flatten h node)) ri ?m1 (nx + 1)
                    = Some (Inr (attrs, m', nx'))" by simp
        from 2[of "fst (node_flatten h node)" "(?m1, nx + 1, attrs, m', nx')"] fv d1 nx
        obtain n where b: "m' = ?m1 @ n" "dense_from (length ri) m'"
          "nx' = int (length ri + length m')"
          "fp_agree_attrs h ri m' (fst (node_flatten h node)) attrs"
          unfolding fp_inv_values_def by auto
        have "look ri m' node = Some nx"
          unfolding b(1) using fresh by (simp add: look_def map_add_def)
        with b New(3) GraphNodeImpl impl a show ?thesis by (simp del: get_node_impl.simps)
      next
        case PytreeNodeImpl
        from New(2) PytreeNodeImpl
        have fv: "fingerprint_values fuel h (fst (node_flatten h node)) ri m nx
                    = Some (Inr (attrs, m', nx'))" by simp
        from 2[of "fst (node_flatten h node)" "(m, nx, attrs, m', nx')"] fv d nx
        obtain n where b: "m' = m @ n" "dense_from (length ri) m'"
          "nx' = int (length ri + length m')"
          "fp_agree_attrs h ri m' (fst (node_flatten h node)) attrs"
          unfolding fp_inv_values_def by auto
        with New(3) PytreeNodeImpl impl show ?thesis by (simp del: get_node_impl.simps)
      qed
    qed
  qed
next
  case (3 fuel s)
  show ?case by (cases s) (auto simp: fp_inv_values_def)
next
  case (4 fuel key "value" "values" s)
  obtain m nx attrs m' nx' where s: "s = (m, nx, attrs, m', nx')" by (cases s) auto
  show ?case
    unfolding s fp_inv_values_def prod.case
  proof (intro impI)
    assume g: "fingerprint_values fuel h ((key, value) # values) ri m nx
                 = Some (Inr (attrs, m', nx'))"
      and d: "dense_from (length ri) m" and nx: "nx = int (length ri + length m)"
    let ?goal = "(\<exists>n. m' = m @ n) \<and> dense_from (length ri) m' \<and>
                 nx' = int (length ri + length m') \<and>
                 fp_agree_attrs h ri m' ((key, value) # values) attrs"
    from g show ?goal
    proof (cases rule: fingerprint_values_ConsE)
      case (Node impl fp m1 nx1 attrs')
      from 4(1)[of "(impl, m, nx, fp, m1, nx1)"] Node(1,2) d nx
      obtain n1 where a: "m1 = m @ n1" "dense_from (length ri) m1"
        "nx1 = int (length ri + length m1)" "fp_agree h ri m1 value fp"
        unfolding fp_inv_node_def by auto
      from 4(2)[of "(m1, nx1, attrs', m', nx')"] Node(3) a(2,3)
      obtain n2 where b: "m' = m1 @ n2" "dense_from (length ri) m'"
        "nx' = int (length ri + length m')" "fp_agree_attrs h ri m' values attrs'"
        unfolding fp_inv_values_def by auto
      from a(4) have "fp_agree h ri m' value fp" unfolding b(1) by (rule fp_agree_prefix(1))
      moreover have "m' = m @ (n1 @ n2)" using a(1) b(1) by simp
      ultimately show ?thesis using b Node(1,4) by (simp del: get_node_impl.simps)
    next
      case (VarOld i attrs')
      from 4(2)[of "(m, nx, attrs', m', nx')"] VarOld(4) d nx
      obtain n where b: "m' = m @ n" "dense_from (length ri) m'"
        "nx' = int (length ri + length m')" "fp_agree_attrs h ri m' values attrs'"
        unfolding fp_inv_values_def by auto
      from VarOld(2) obtain a where a: "value = Ref a" by (auto dest: variable_is_ref)
      from VarOld(3) have "look ri m' value = Some i" by (simp add: look_def)
      with b VarOld(2,5) a show ?thesis by (simp del: is_variable.simps)
    next
      case (VarSeen i attrs')
      from 4(2)[of "(m, nx, attrs', m', nx')"] VarSeen(5) d nx
      obtain n where b: "m' = m @ n" "dense_from (length ri) m'"
        "nx' = int (length ri + length m')" "fp_agree_attrs h ri m' values attrs'"
        unfolding fp_inv_values_def by auto
      from VarSeen(2) obtain a where a: "value = Ref a" by (auto dest: variable_is_ref)
      from VarSeen(3,4) b(1) have "look ri m' value = Some i"
        by (simp add: look_def map_add_def)
      with b VarSeen(2,6) a show ?thesis by (simp del: is_variable.simps)
    next
      case (Var attrs')
      let ?m1 = "m @ [(value, nx)]"
      have m1: "AList.update value nx m = ?m1" using Var(4) by (rule update_fresh)
      have d1: "dense_from (length ri) ?m1" unfolding nx using d Var(4) by (rule dense_from_snoc)
      from Var(5) m1
      have fv: "fingerprint_values fuel h values ri ?m1 (nx + 1) = Some (Inr (attrs', m', nx'))"
        by simp
      from 4(2)[of "(?m1, nx + 1, attrs', m', nx')"] fv d1 nx
      obtain n where b: "m' = ?m1 @ n" "dense_from (length ri) m'"
        "nx' = int (length ri + length m')" "fp_agree_attrs h ri m' values attrs'"
        unfolding fp_inv_values_def by auto
      from Var(2) obtain a where a: "value = Ref a" by (auto dest: variable_is_ref)
      have "look ri m' value = Some nx"
        unfolding b(1) using Var(3,4) by (simp add: look_def map_add_def)
      with b Var(2,6) a show ?thesis by (simp del: is_variable.simps)
    next
      case (Static attrs')
      from 4(2)[of "(m, nx, attrs', m', nx')"] Static(4) d nx
      obtain n where b: "m' = m @ n" "dense_from (length ri) m'"
        "nx' = int (length ri + length m')" "fp_agree_attrs h ri m' values attrs'"
        unfolding fp_inv_values_def by auto
      with Static(1,2,5) show ?thesis by (simp del: is_variable.simps get_node_impl.simps)
    qed
  qed
qed

lemma fingerprint_InrD:
  assumes "fingerprint fuel h node ri nri = Some (Inr fp)"
  shows "\<exists>impl m' nx'.
           get_node_impl h node = Some impl \<and>
           graph_fingerprint fuel h node impl (case ri of None \<Rightarrow> [] | Some r \<Rightarrow> r)
             (case nri of None \<Rightarrow> [] | Some r \<Rightarrow> r)
             (int (length (case ri of None \<Rightarrow> [] | Some r \<Rightarrow> r)) +
              int (length (case nri of None \<Rightarrow> [] | Some r \<Rightarrow> r))) = Some (Inr (fp, m', nx'))"
proof (cases "get_node_impl h node")
  case None
  with assms show ?thesis by (simp add: fingerprint_def)
next
  case (Some impl)
  let ?g = "graph_fingerprint fuel h node impl (case ri of None \<Rightarrow> [] | Some r \<Rightarrow> r)
             (case nri of None \<Rightarrow> [] | Some r \<Rightarrow> r)
             (int (length (case ri of None \<Rightarrow> [] | Some r \<Rightarrow> r)) +
              int (length (case nri of None \<Rightarrow> [] | Some r \<Rightarrow> r)))"
  from assms Some obtain m' nx' where "?g = Some (Inr (fp, m', nx'))"
    by (cases ?g) (auto simp: fingerprint_def Let_def split: sum.splits)
  with Some show ?thesis by blast
qed

section \<open>Reasoning about the unflatten traversal\<close>

lemma children_append_Inr:
  "children_append kv r = Inr (cs, s) \<longleftrightarrow> (\<exists>cs'. cs = kv # cs' \<and> r = Inr (cs', s))"
  by (cases "(kv, r)" rule: children_append.cases) auto

lemma children_append_Inl:
  "children_append kv r = Inl e \<longleftrightarrow> r = Inl e"
  by (cases "(kv, r)" rule: children_append.cases) auto

lemma descriptor_induct:
  fixes P :: "graphdef \<Rightarrow> 'a \<Rightarrow> bool" and Q :: "(key \<times> graphdef) list \<Rightarrow> 'b \<Rightarrow> bool"
  assumes ref: "\<And>ty i s. P (NodeRef ty i) s"
    and var: "\<And>ty i oi md s. P (VariableDef ty i oi md) s"
    and static: "\<And>v s. P (Static v) s"
    and node: "\<And>ty i oi attrs md s. (\<And>t. Q attrs t) \<Longrightarrow> P (NodeDef ty i oi attrs md) s"
    and nil: "\<And>s. Q [] s"
    and cons: "\<And>k d attrs s. (\<And>t. P d t) \<Longrightarrow> (\<And>t. Q attrs t) \<Longrightarrow> Q ((k, d) # attrs) s"
  shows "P d s" and "Q attrs s'"
proof -
  have step: "Q attrs s" if "\<And>kd t. kd \<in> set attrs \<Longrightarrow> P (snd kd) t" for attrs s
    using that
  proof (induction attrs arbitrary: s)
    case Nil
    show ?case by (rule nil)
  next
    case (Cons kd attrs)
    obtain k d where kd: "kd = (k, d)" by (cases kd)
    have "\<And>t. P d t" using Cons.prems[of kd] kd by simp
    moreover have "\<And>t. Q attrs t" by (rule Cons.IH) (simp add: Cons.prems)
    ultimately show ?case unfolding kd by (rule cons)
  qed
  have all: "P d s" for d s
  proof (induction d arbitrary: s)
    case (NodeRef ty i)
    show ?case by (rule ref)
  next
    case (NodeDef ty i oi attrs md)
    show ?case
    proof (rule node)
      fix t show "Q attrs t"
      proof (rule step)
        fix kd t assume kd: "kd \<in> set attrs"
        have "snd kd \<in> Basic_BNFs.snds kd" by (cases kd) simp
        then show "P (snd kd) t" by (rule NodeDef.IH[OF kd])
      qed
    qed
  next
    case (VariableDef ty i oi md)
    show ?case by (rule var)
  next
    case (Static v)
    show ?case by (rule static)
  qed
  show "P d s" by (rule all)
  show "Q attrs s'" by (rule step) (rule all)
qed

lemma get_children_Static_Inr:
  "get_children h ((k, Static v) # as) L ir oi = Inr (cs, s) \<longleftrightarrow>
     (\<exists>cs'. cs = (k, v) # cs' \<and> get_children h as L ir oi = Inr (cs', s))"
  by (simp add: children_append_Inr)

lemma get_children_NodeRef_Inr:
  "get_children h ((k, NodeRef ty i) # as) L ir oi = Inr (cs, s) \<longleftrightarrow>
     (\<exists>node cs'. map_of ir i = Some node \<and> cs = (k, node) # cs' \<and>
        get_children h as L ir oi = Inr (cs', s))"
  by (auto simp: children_append_Inr split: option.splits)

lemma get_children_NodeDef_Inr:
  "get_children h ((k, NodeDef ty i oi attrs md) # as) L ir oior = Inr (cs, s) \<longleftrightarrow>
     (\<exists>impl sub h1 L1 ir1 cs'. get_node_impl_for_type ty = Some impl \<and>
        graph_unflatten h (NodeDef ty i oi attrs md) impl L ir oior = Inr (sub, h1, L1, ir1) \<and>
        cs = (k, sub) # cs' \<and> get_children h1 as L1 ir1 oior = Inr (cs', s))"
  by (auto simp: children_append_Inr split: option.splits sum.splits)


lemma graph_unflatten_NodeDef_Inr:
  "graph_unflatten h (NodeDef ty i oi attrs md) impl L ir oior = Inr (v, h', L', ir') \<longleftrightarrow>
     map_of ir i = None \<and>
     (\<exists>nd h0 cs h1. node_before h ty oi md impl oior = Some (nd, h0) \<and>
        get_children h0 attrs L (case nd of Some n \<Rightarrow> AList.update i n ir | None \<Rightarrow> ir) oior
          = Inr (cs, h1, L', ir') \<and>
        v = (case nd of Some n \<Rightarrow> n | None \<Rightarrow> Pytree (type_name ty) cs md) \<and>
        h' = (case nd of Some n \<Rightarrow> node_init h1 n cs | None \<Rightarrow> h1))"
  by (cases "outer_ref_of oior oi")
     (auto simp: node_before_def split: sum.splits simp del: create_empty.simps)

lemma graph_unflatten_NodeDef_Inl:
  "graph_unflatten h (NodeDef ty i oi attrs md) impl L ir oior = Inl e \<longleftrightarrow>
     (map_of ir i \<noteq> None \<and> e = IndexAlreadyUsed i) \<or>
     (map_of ir i = None \<and>
      (case node_before h ty oi md impl oior of
         None \<Rightarrow> e = TypeMismatch ty (type_of h (the (outer_ref_of oior oi)))
       | Some (nd, h0) \<Rightarrow>
           get_children h0 attrs L (case nd of Some n \<Rightarrow> AList.update i n ir | None \<Rightarrow> ir)
             oior = Inl e))"
  by (cases "outer_ref_of oior oi")
     (auto simp: node_before_def split: sum.splits simp del: create_empty.simps)

lemma leaves_frame:
  "leaves_frame_node d s" and "leaves_frame_children attrs s'"
proof (induction d s and attrs s' rule: descriptor_induct)
  case (1 ty i s)
  show ?case
    by (cases s) (auto simp: leaves_frame_node_def split: option.splits)
next
  case (2 ty i oi md s)
  show ?case by (cases s) (simp add: leaves_frame_node_def)
next
  case (3 v s)
  show ?case by (cases s) (simp add: leaves_frame_node_def)
next
  case (4 ty i oi attrs md s)
  obtain h impl L ir oior v h' L' ir' where s: "s = (h, impl, L, ir, oior, v, h', L', ir')"
    by (cases s) auto
  show ?case
    unfolding s leaves_frame_node_def prod.case
  proof
    assume "graph_unflatten h (NodeDef ty i oi attrs md) impl L ir oior = Inr (v, h', L', ir')"
    then obtain nd h0 cs h1 where nb: "node_before h ty oi md impl oior = Some (nd, h0)"
      and ir: "map_of ir i = None"
      and gc: "get_children h0 attrs L (case nd of Some n \<Rightarrow> AList.update i n ir | None \<Rightarrow> ir)
                 oior = Inr (cs, h1, L', ir')"
      and v: "v = (case nd of Some n \<Rightarrow> n | None \<Rightarrow> Pytree (type_name ty) cs md)"
      and h': "h' = (case nd of Some n \<Rightarrow> node_init h1 n cs | None \<Rightarrow> h1)"
      unfolding graph_unflatten_NodeDef_Inr by blast
    from 4[of "(h0, L, (case nd of Some n \<Rightarrow> AList.update i n ir | None \<Rightarrow> ir), oior,
                cs, h1, L', ir')"] gc
    obtain pre where pre: "L = pre @ L'"
      "length pre = sum_list (map (\<lambda>kd. count_leaves (snd kd)) attrs)"
      "\<And>rest. get_children h0 attrs (pre @ rest)
                 (case nd of Some n \<Rightarrow> AList.update i n ir | None \<Rightarrow> ir) oior
               = Inr (cs, h1, rest, ir')"
      unfolding leaves_frame_children_def by auto
    have "graph_unflatten h (NodeDef ty i oi attrs md) impl (pre @ rest) ir oior
            = Inr (v, h', rest, ir')" for rest
      unfolding graph_unflatten_NodeDef_Inr using nb ir pre(3)[of rest] v h' by blast
    with pre show "\<exists>pre. L = pre @ L' \<and> length pre = count_leaves (NodeDef ty i oi attrs md) \<and>
          (\<forall>rest. graph_unflatten h (NodeDef ty i oi attrs md) impl (pre @ rest) ir oior
                    = Inr (v, h', rest, ir'))"
      by auto
  qed
next
  case (5 s)
  show ?case by (cases s) (auto simp: leaves_frame_children_def)
next
  case (6 k d attrs s)
  obtain h L ir oior cs h' L' ir' where s: "s = (h, L, ir, oior, cs, h', L', ir')"
    by (cases s) auto
  note Q = 6(2)[unfolded leaves_frame_children_def, rule_format]
  show ?case
  proof (cases d)
    case (NodeRef ty i)
    show ?thesis
      unfolding s leaves_frame_children_def prod.case NodeRef get_children_NodeRef_Inr
    proof
      assume "\<exists>node cs'. map_of ir i = Some node \<and> cs = (k, node) # cs' \<and>
                get_children h attrs L ir oior = Inr (cs', h', L', ir')"
      then obtain node cs' where a: "map_of ir i = Some node" "cs = (k, node) # cs'"
        "get_children h attrs L ir oior = Inr (cs', h', L', ir')" by blast
      from 6(2)[of "(h, L, ir, oior, cs', h', L', ir')"] a(3)
      obtain pre where pre: "L = pre @ L'"
        "length pre = sum_list (map (\<lambda>kd. count_leaves (snd kd)) attrs)"
        "\<And>rest. get_children h attrs (pre @ rest) ir oior = Inr (cs', h', rest, ir')"
        unfolding leaves_frame_children_def by auto
      with a show "\<exists>pre. L = pre @ L' \<and>
          length pre = sum_list (map (\<lambda>kd. count_leaves (snd kd)) ((k, NodeRef ty i) # attrs)) \<and>
          (\<forall>rest. \<exists>node cs'a. map_of ir i = Some node \<and> cs = (k, node) # cs'a \<and>
                get_children h attrs (pre @ rest) ir oior = Inr (cs'a, h', rest, ir'))"
        by auto
    qed
  next
    case (Static v)
    show ?thesis
      unfolding s leaves_frame_children_def prod.case Static get_children_Static_Inr
    proof
      assume "\<exists>cs'. cs = (k, v) # cs' \<and> get_children h attrs L ir oior = Inr (cs', h', L', ir')"
      then obtain cs' where a: "cs = (k, v) # cs'"
        "get_children h attrs L ir oior = Inr (cs', h', L', ir')" by blast
      from 6(2)[of "(h, L, ir, oior, cs', h', L', ir')"] a(2)
      obtain pre where pre: "L = pre @ L'"
        "length pre = sum_list (map (\<lambda>kd. count_leaves (snd kd)) attrs)"
        "\<And>rest. get_children h attrs (pre @ rest) ir oior = Inr (cs', h', rest, ir')"
        unfolding leaves_frame_children_def by auto
      with a show "\<exists>pre. L = pre @ L' \<and>
          length pre = sum_list (map (\<lambda>kd. count_leaves (snd kd)) ((k, Static v) # attrs)) \<and>
          (\<forall>rest. \<exists>cs'a. cs = (k, v) # cs'a \<and>
                get_children h attrs (pre @ rest) ir oior = Inr (cs'a, h', rest, ir'))"
        by auto
    qed
  next
    case (NodeDef ty i oi as md)
    show ?thesis
      unfolding s leaves_frame_children_def prod.case NodeDef get_children_NodeDef_Inr
    proof
      assume "\<exists>impl sub h1 L1 ir1 cs'. get_node_impl_for_type ty = Some impl \<and>
        graph_unflatten h (NodeDef ty i oi as md) impl L ir oior = Inr (sub, h1, L1, ir1) \<and>
        cs = (k, sub) # cs' \<and> get_children h1 attrs L1 ir1 oior = Inr (cs', h', L', ir')"
      then obtain impl sub h1 L1 ir1 cs' where a: "get_node_impl_for_type ty = Some impl"
        "graph_unflatten h (NodeDef ty i oi as md) impl L ir oior = Inr (sub, h1, L1, ir1)"
        "cs = (k, sub) # cs'" "get_children h1 attrs L1 ir1 oior = Inr (cs', h', L', ir')"
        by blast
      from 6(1)[of "(h, impl, L, ir, oior, sub, h1, L1, ir1)"] a(2)
      obtain pre1 where pre1: "L = pre1 @ L1" "length pre1 = count_leaves d"
        "\<And>rest. graph_unflatten h (NodeDef ty i oi as md) impl (pre1 @ rest) ir oior
                 = Inr (sub, h1, rest, ir1)"
        unfolding leaves_frame_node_def NodeDef by auto
      from 6(2)[of "(h1, L1, ir1, oior, cs', h', L', ir')"] a(4)
      obtain pre2 where pre2: "L1 = pre2 @ L'"
        "length pre2 = sum_list (map (\<lambda>kd. count_leaves (snd kd)) attrs)"
        "\<And>rest. get_children h1 attrs (pre2 @ rest) ir1 oior = Inr (cs', h', rest, ir')"
        unfolding leaves_frame_children_def by auto
      have "\<exists>impl sub h1 L1 ir1 cs'a. get_node_impl_for_type ty = Some impl \<and>
                graph_unflatten h (NodeDef ty i oi as md) impl ((pre1 @ pre2) @ rest) ir oior
                   = Inr (sub, h1, L1, ir1) \<and>
                cs = (k, sub) # cs'a \<and> get_children h1 attrs L1 ir1 oior
                   = Inr (cs'a, h', rest, ir')" for rest
        using a(1,3) pre1(3)[of "pre2 @ rest"] pre2(3)[of rest] by auto
      moreover have "L = (pre1 @ pre2) @ L'" using pre1(1) pre2(1) by simp
      moreover have "length (pre1 @ pre2) =
          sum_list (map (\<lambda>kd. count_leaves (snd kd)) ((k, NodeDef ty i oi as md) # attrs))"
        using pre1(2) pre2(2) NodeDef by simp
      ultimately show "\<exists>pre. L = pre @ L' \<and>
          length pre = sum_list (map (\<lambda>kd. count_leaves (snd kd))
                                   ((k, NodeDef ty i oi as md) # attrs)) \<and>
          (\<forall>rest. \<exists>impl sub h1 L1 ir1 cs'a. get_node_impl_for_type ty = Some impl \<and>
                graph_unflatten h (NodeDef ty i oi as md) impl (pre @ rest) ir oior
                   = Inr (sub, h1, L1, ir1) \<and>
                cs = (k, sub) # cs'a \<and> get_children h1 attrs L1 ir1 oior
                   = Inr (cs'a, h', rest, ir'))"
        by blast
    qed
  next
    case (VariableDef ty i oi md)
    show ?thesis
      unfolding s leaves_frame_children_def prod.case VariableDef
    proof
      assume g: "get_children h ((k, VariableDef ty i oi md) # attrs) L ir oior
                   = Inr (cs, h', L', ir')"
      then obtain "value" L1 where L: "L = value # L1" by (cases L) auto
      show "\<exists>pre. L = pre @ L' \<and>
          length pre = sum_list (map (\<lambda>kd. count_leaves (snd kd))
                                   ((k, VariableDef ty i oi md) # attrs)) \<and>
          (\<forall>rest. get_children h ((k, VariableDef ty i oi md) # attrs) (pre @ rest) ir oior
                    = Inr (cs, h', rest, ir'))"
      proof (cases "outer_ref_of oior oi")
        case None
        from g L None obtain cs' where a: "cs = (k, fst (new_variable h ty md value)) # cs'"
          "get_children (snd (new_variable h ty md value)) attrs L1
             (AList.update i (fst (new_variable h ty md value)) ir) oior
             = Inr (cs', h', L', ir')"
          by (auto simp: children_append_Inr simp del: new_variable.simps)
        from 6(2)[of "(snd (new_variable h ty md value), L1,
                        AList.update i (fst (new_variable h ty md value)) ir, oior,
                        cs', h', L', ir')"] a(2)
        obtain pre where pre: "L1 = pre @ L'"
          "length pre = sum_list (map (\<lambda>kd. count_leaves (snd kd)) attrs)"
          "\<And>rest. get_children (snd (new_variable h ty md value)) attrs (pre @ rest)
             (AList.update i (fst (new_variable h ty md value)) ir) oior
             = Inr (cs', h', rest, ir')"
          unfolding leaves_frame_children_def by auto
        show ?thesis
          by (rule exI[of _ "value # pre"])
             (use L None a(1) pre in \<open>auto simp: children_append_Inr simp del: new_variable.simps\<close>)
      next
        case (Some variable)
        from g L Some obtain cs' where a: "cs = (k, variable) # cs'" "is_variable h variable"
          "get_children (update_variable h variable value) attrs L1
             (AList.update i variable ir) oior = Inr (cs', h', L', ir')"
          by (auto simp: children_append_Inr split: if_splits)
        from 6(2)[of "(update_variable h variable value, L1,
                        AList.update i variable ir, oior, cs', h', L', ir')"] a(3)
        obtain pre where pre: "L1 = pre @ L'"
          "length pre = sum_list (map (\<lambda>kd. count_leaves (snd kd)) attrs)"
          "\<And>rest. get_children (update_variable h variable value) attrs (pre @ rest)
             (AList.update i variable ir) oior = Inr (cs', h', rest, ir')"
          unfolding leaves_frame_children_def by auto
        show ?thesis
          by (rule exI[of _ "value # pre"])
             (use L Some a(1,2) pre in \<open>auto simp: children_append_Inr\<close>)
      qed
    qed
  qed
qed

lemma starve:
  "starve_node d s" and "starve_children attrs s'"
proof (induction d s and attrs s' rule: descriptor_induct)
  case (1 ty i s)
  show ?case by (cases s) (auto simp: starve_node_def)
next
  case (2 ty i oi md s)
  show ?case by (cases s) (simp add: starve_node_def)
next
  case (3 v s)
  show ?case by (cases s) (simp add: starve_node_def)
next
  case (4 ty i oi attrs md s)
  obtain h impl L ir oior res n where s: "s = (h, impl, L, ir, oior, res, n)"
    by (cases s) auto
  obtain v h' L' ir' where res: "res = (v, h', L', ir')" by (cases res) auto
  show ?case
    unfolding s starve_node_def prod.case
  proof (intro impI)
    assume "graph_unflatten h (NodeDef ty i oi attrs md) impl L ir oior = Inr res"
      and n: "n < count_leaves (NodeDef ty i oi attrs md)"
    then obtain nd h0 cs h1 where nb: "node_before h ty oi md impl oior = Some (nd, h0)"
      and ir: "map_of ir i = None"
      and gc: "get_children h0 attrs L (case nd of Some n \<Rightarrow> AList.update i n ir | None \<Rightarrow> ir)
                 oior = Inr (cs, h1, L', ir')"
      unfolding res graph_unflatten_NodeDef_Inr by blast
    from 4[of "(h0, L, (case nd of Some n \<Rightarrow> AList.update i n ir | None \<Rightarrow> ir), oior,
                (cs, h1, L', ir'), n)"] gc n
    have "get_children h0 attrs (take n L)
            (case nd of Some n \<Rightarrow> AList.update i n ir | None \<Rightarrow> ir) oior
          = Inl NotEnoughLeaves"
      unfolding starve_children_def by simp
    with nb ir show "graph_unflatten h (NodeDef ty i oi attrs md) impl (take n L) ir oior
                       = Inl NotEnoughLeaves"
      unfolding graph_unflatten_NodeDef_Inl by simp
  qed
next
  case (5 s)
  show ?case by (cases s) (auto simp: starve_children_def)
next
  case (6 k d attrs s)
  obtain h L ir oior res n where s: "s = (h, L, ir, oior, res, n)"
    by (cases s) auto
  obtain cs h' L' ir' where res: "res = (cs, h', L', ir')" by (cases res) auto
  show ?case
    unfolding s starve_children_def prod.case
  proof (intro impI)
    assume g: "get_children h ((k, d) # attrs) L ir oior = Inr res"
      and n: "n < sum_list (map (\<lambda>kd. count_leaves (snd kd)) ((k, d) # attrs))"
    show "get_children h ((k, d) # attrs) (take n L) ir oior = Inl NotEnoughLeaves"
    proof (cases d)
      case (NodeRef ty i)
      from g obtain node cs' where a: "map_of ir i = Some node"
        "get_children h attrs L ir oior = Inr (cs', h', L', ir')"
        unfolding res NodeRef get_children_NodeRef_Inr by blast
      from 6(2)[of "(h, L, ir, oior, (cs', h', L', ir'), n)"] a(2) n
      have "get_children h attrs (take n L) ir oior = Inl NotEnoughLeaves"
        unfolding starve_children_def NodeRef by simp
      with a(1) show ?thesis unfolding NodeRef by (simp add: children_append_Inl)
    next
      case (Static v)
      from g obtain cs' where a: "get_children h attrs L ir oior = Inr (cs', h', L', ir')"
        unfolding res Static get_children_Static_Inr by blast
      from 6(2)[of "(h, L, ir, oior, (cs', h', L', ir'), n)"] a n
      have "get_children h attrs (take n L) ir oior = Inl NotEnoughLeaves"
        unfolding starve_children_def Static by simp
      then show ?thesis unfolding Static by (simp add: children_append_Inl)
    next
      case (NodeDef ty i oi as md)
      from g obtain impl sub h1 L1 ir1 cs' where a: "get_node_impl_for_type ty = Some impl"
        "graph_unflatten h d impl L ir oior = Inr (sub, h1, L1, ir1)"
        "get_children h1 attrs L1 ir1 oior = Inr (cs', h', L', ir')"
        unfolding res NodeDef get_children_NodeDef_Inr by blast
      from leaves_frame(1)[of d "(h, impl, L, ir, oior, sub, h1, L1, ir1)"] a(2)
      obtain pre1 where pre1: "L = pre1 @ L1" "length pre1 = count_leaves d"
        "\<And>rest. graph_unflatten h d impl (pre1 @ rest) ir oior = Inr (sub, h1, rest, ir1)"
        unfolding leaves_frame_node_def by auto
      show ?thesis
      proof (cases "n < count_leaves d")
        case True
        from 6(1)[of "(h, impl, L, ir, oior, (sub, h1, L1, ir1), n)"] a(2) True
        have "graph_unflatten h d impl (take n L) ir oior = Inl NotEnoughLeaves"
          unfolding starve_node_def by simp
        with a(1) show ?thesis unfolding NodeDef by simp
      next
        case False
        then have t: "take n L = pre1 @ take (n - count_leaves d) L1"
          using pre1(1,2) by simp
        from False n have n': "n - count_leaves d
                                 < sum_list (map (\<lambda>kd. count_leaves (snd kd)) attrs)"
          by simp
        from 6(2)[of "(h1, L1, ir1, oior, (cs', h', L', ir'), n - count_leaves d)"] a(3) n'
        have "get_children h1 attrs (take (n - count_leaves d) L1) ir1 oior
                = Inl NotEnoughLeaves"
          unfolding starve_children_def by simp
        with a(1) pre1(3)[of "take (n - count_leaves d) L1"] show ?thesis
          unfolding t NodeDef by (simp add: children_append_Inl)
      qed
    next
      case (VariableDef ty i oi md)
      from g obtain "value" L1 where L: "L = value # L1"
        unfolding VariableDef by (cases L) auto
      show ?thesis
      proof (cases n)
        case 0
        then show ?thesis unfolding VariableDef by simp
      next
        case (Suc n')
        with n have n': "n' < sum_list (map (\<lambda>kd. count_leaves (snd kd)) attrs)"
          unfolding VariableDef by simp
        show ?thesis
        proof (cases "outer_ref_of oior oi")
          case None
          from g L None obtain cs' where
            a: "get_children (snd (new_variable h ty md value)) attrs L1
                  (AList.update i (fst (new_variable h ty md value)) ir) oior
                  = Inr (cs', h', L', ir')"
            unfolding res VariableDef
            by (auto simp: children_append_Inr simp del: new_variable.simps)
          from 6(2)[of "(snd (new_variable h ty md value), L1,
                          AList.update i (fst (new_variable h ty md value)) ir, oior,
                          (cs', h', L', ir'), n')"] a n'
          have "get_children (snd (new_variable h ty md value)) attrs (take n' L1)
                  (AList.update i (fst (new_variable h ty md value)) ir) oior
                  = Inl NotEnoughLeaves"
            unfolding starve_children_def by simp
          with L None Suc show ?thesis
            unfolding VariableDef
            by (simp add: children_append_Inl del: new_variable.simps)
        next
          case (Some variable)
          from g L Some obtain cs' where a: "is_variable h variable"
            "get_children (update_variable h variable value) attrs L1
               (AList.update i variable ir) oior = Inr (cs', h', L', ir')"
            unfolding res VariableDef
            by (auto simp: children_append_Inr split: if_splits)
          from 6(2)[of "(update_variable h variable value, L1,
                          AList.update i variable ir, oior, (cs', h', L', ir'), n')"] a(2) n'
          have "get_children (update_variable h variable value) attrs (take n' L1)
                  (AList.update i variable ir) oior = Inl NotEnoughLeaves"
            unfolding starve_children_def by simp
          with L Some Suc a(1) show ?thesis
            unfolding VariableDef by (simp add: children_append_Inl)
        qed
      qed
    qed
  qed
qed

section \<open>Reasoning about the round trip\<close>

lemma unvisited_sum:
  "unvisited h r = (\<Sum>a<length h. if get_node_impl h (Ref a) = Some GraphNodeImpl \<and> map_of r (Ref a) = None
                        then Suc (weights (fst (node_flatten h (Ref a)))) else 0)"
  unfolding unvisited_def by (simp add: interv_sum_list_conv_sum_set_nat atLeast0LessThan)

lemma unvisited_mono: "unvisited h (r @ n) \<le> unvisited h r"
  unfolding unvisited_sum by (rule sum_mono) (auto simp: map_add_def split: option.splits)

lemma unvisited_register:
  assumes "get_node_impl h (Ref a) = Some GraphNodeImpl" "map_of r (Ref a) = None"
  shows "unvisited h (r @ [(Ref a, i)]) + Suc (weights (fst (node_flatten h (Ref a)))) = unvisited h r"
proof -
  let ?f = "\<lambda>r a. if get_node_impl h (Ref a) = Some GraphNodeImpl \<and> map_of r (Ref a) = None
                        then Suc (weights (fst (node_flatten h (Ref a)))) else 0"
  have a: "a \<in> {..<length h}" using graph_node_in_heap[OF assms(1)] by simp
  have "sum (?f r) {..<length h} = ?f r a + sum (?f r) ({..<length h} - {a})"
    using a by (simp add: sum.remove)
  moreover have "sum (?f (r @ [(Ref a, i)])) {..<length h} = ?f (r @ [(Ref a, i)]) a + sum (?f (r @ [(Ref a, i)])) ({..<length h} - {a})"
    using a by (simp add: sum.remove)
  moreover have "sum (?f (r @ [(Ref a, i)])) ({..<length h} - {a}) = sum (?f r) ({..<length h} - {a})"
    by (rule sum.cong) (auto simp: map_add_def split: option.splits)
  moreover have "?f (r @ [(Ref a, i)]) a = 0" by (auto simp: map_add_def split: option.splits)
  moreover have "?f r a = Suc (weights (fst (node_flatten h (Ref a))))" using assms by simp
  ultimately show ?thesis unfolding unvisited_sum by simp
qed



lemma covered_mono: "covered h r v \<Longrightarrow> covered h (r @ n) v"
  by (induction h r v rule: covered.induct) (auto simp: list_all_iff map_add_def split: option.splits)

lemma covered_list_mono:
  "list_all (\<lambda>kv. covered h r (snd kv)) vs \<Longrightarrow> list_all (\<lambda>kv. covered h (r @ n) (snd kv)) vs"
  by (auto simp: list_all_iff intro: covered_mono)

lemma pytree_impl:
  "get_node_impl h node = Some PytreeNodeImpl \<Longrightarrow> \<exists>ty items aux. node = Pytree ty items aux"
  by (cases node) (auto split: option.splits obj.splits if_splits)

lemma variable_no_children: "is_variable h v \<Longrightarrow> fst (node_flatten h v) = []"
  by (cases v) (auto split: option.splits obj.splits if_splits)

lemma cover_inv:
  "cover_inv_node fuel h ro rv node s" "cover_inv_values fuel h ro rv vs s'"
proof (induction fuel node s and fuel vs s' rule: traversal_induct)
  case (1 node s)
  show ?case by (cases s) (auto simp: cover_inv_node_def)
next
  case (2 fuel node s)
  obtain impl path r l p gd r' t where s: "s = (impl, path, r, l, p, gd, r', t)"
    by (cases s) auto
  show ?case
    unfolding s cover_inv_node_def prod.case
  proof (intro impI)
    assume g: "graph_flatten (Suc fuel) h node impl path r ro l p rv = Some (Inr (gd, r', t))"
      and impl: "get_node_impl h node = Some impl"
    let ?C = "\<lambda>r' n. \<forall>k\<in>fst ` set n. tracked h k \<and>
            list_all (\<lambda>kv. covered h r' (snd kv)) (fst (node_flatten h k))"
    from g show "\<exists>n. r' = r @ n \<and> ?C r' n \<and> covered h r' node"
    proof (cases rule: graph_flatten_SucE)
      case (NodeRef i)
      from NodeRef(1) impl obtain a where "node = Ref a"
        by (cases impl) (auto dest: graph_node_is_ref)
      with NodeRef show ?thesis by simp
    next
      case (NodeDef attrs)
      let ?r1 = "if impl = GraphNodeImpl then AList.update node (int (length r)) r else r"
      have r1: "?r1 = (if impl = GraphNodeImpl then r @ [(node, int (length r))] else r)"
        using NodeDef(1) by (cases impl) (auto simp: update_fresh)
      from 2[of "fst (node_flatten h node)" "(path, ?r1, l, p, attrs, r', t)"] NodeDef(2)
      obtain n where n: "r' = ?r1 @ n" "?C r' n"
        "list_all (\<lambda>kv. covered h r' (snd kv)) (fst (node_flatten h node))"
        unfolding cover_inv_values_def by auto
      show ?thesis
      proof (cases impl)
        case GraphNodeImpl
        from impl GraphNodeImpl obtain a where a: "node = Ref a"
          by (auto dest: graph_node_is_ref)
        from n(1) GraphNodeImpl r1 have r': "r' = r @ ((node, int (length r)) # n)" by simp
        have "tracked h node" using impl GraphNodeImpl by (simp add: tracked_def)
        with n(2,3) have "?C r' ((node, int (length r)) # n)" by simp
        moreover have "covered h r' node" unfolding r' a by (auto simp: map_add_def split: option.splits)
        ultimately show ?thesis using r' by blast
      next
        case PytreeNodeImpl
        from impl PytreeNodeImpl obtain ty items aux where nd: "node = Pytree ty items aux"
          by (auto dest: pytree_impl)
        from n(1) PytreeNodeImpl r1 have r': "r' = r @ n" by simp
        from n(3) nd have "covered h r' node" by simp
        with r' n(2) show ?thesis by blast
      qed
    qed
  qed
next
  case (3 fuel s)
  show ?case by (cases s) (auto simp: cover_inv_values_def)
next
  case (4 fuel key "value" "values" s)
  obtain path r l p attrs r' t where s: "s = (path, r, l, p, attrs, r', t)"
    by (cases s) auto
  show ?case
    unfolding s cover_inv_values_def prod.case
  proof (intro impI)
    assume g: "flatten_values fuel h ((key, value) # values) path r ro l p rv
                 = Some (Inr (attrs, r', t))"
    let ?C = "\<lambda>r' n. \<forall>k\<in>fst ` set n. tracked h k \<and>
            list_all (\<lambda>kv. covered h r' (snd kv)) (fst (node_flatten h k))"
    from g show "\<exists>n. r' = r @ n \<and> ?C r' n \<and>
                   list_all (\<lambda>kv. covered h r' (snd kv)) ((key, value) # values)"
    proof (cases rule: flatten_values_ConsE)
      case (Node impl gd r1 l1 p1 attrs')
      from 4(1)[of "(impl, map_option (\<lambda>p. p @ [key]) path, r, l, p, gd, r1, l1, p1)"]
        Node(1,2)
      obtain n1 where a: "r1 = r @ n1" "?C r1 n1" "covered h r1 value"
        unfolding cover_inv_node_def by auto
      from 4(2)[of "(path, r1, l1, p1, attrs', r', t)"] Node(3)
      obtain n2 where b: "r' = r1 @ n2" "?C r' n2"
        "list_all (\<lambda>kv. covered h r' (snd kv)) values"
        unfolding cover_inv_values_def by auto
      from a(2) have "?C r' n1" unfolding b(1) by (auto intro: covered_list_mono)
      with b(2) have "?C r' (n1 @ n2)" by auto
      moreover from a(3) have "covered h r' value" unfolding b(1) by (rule covered_mono)
      moreover have "r' = r @ (n1 @ n2)" using a(1) b(1) by simp
      ultimately show ?thesis using b(3) by (intro exI[of _ "n1 @ n2"]) simp
    next
      case (VarRef i attrs')
      from 4(2)[of "(path, r, l, p, attrs', r', t)"] VarRef(4)
      obtain n where b: "r' = r @ n" "?C r' n"
        "list_all (\<lambda>kv. covered h r' (snd kv)) values"
        unfolding cover_inv_values_def by auto
      from VarRef(2) obtain a where "value = Ref a" by (auto dest: variable_is_ref)
      with VarRef(3) b(1) have "covered h r' value" by (auto simp: map_add_def split: option.splits)
      with b show ?thesis by auto
    next
      case (Var attrs')
      let ?r1 = "AList.update value (int (length r)) r"
      have r1: "?r1 = r @ [(value, int (length r))]" using Var(3) by (rule update_fresh)
      from 4(2)[of "(path, ?r1, l @ [if rv then Leaf value else if path = None
                       then Leaf (raw_value h value) else to_state h value],
                     (case map_option (\<lambda>p. p @ [key]) path of None \<Rightarrow> p
                      | Some q \<Rightarrow> map_option (\<lambda>ps. ps @ [q]) p), attrs', r', t)"] Var(4)
      obtain n where b: "r' = ?r1 @ n" "?C r' n"
        "list_all (\<lambda>kv. covered h r' (snd kv)) values"
        unfolding cover_inv_values_def by auto
      from b(1) have r': "r' = r @ ((value, int (length r)) # n)" unfolding r1 by simp
      from Var(2) obtain a where a: "value = Ref a" by (auto dest: variable_is_ref)
      have "tracked h value" using Var(2) by (simp add: tracked_def)
      with b(2) Var(2) have "?C r' ((value, int (length r)) # n)"
        by (simp add: variable_no_children)
      moreover have "covered h r' value" unfolding r' a by (auto simp: map_add_def split: option.splits)
      ultimately show ?thesis using r' b(3) by (intro exI[of _ "(value, int (length r)) # n"]) simp
    next
      case (Static attrs')
      from 4(2)[of "(path, r, l, p, attrs', r', t)"] Static(4)
      obtain n where b: "r' = r @ n" "?C r' n"
        "list_all (\<lambda>kv. covered h r' (snd kv)) values"
        unfolding cover_inv_values_def by auto
      from Static(1,2,3) have "covered h r' value"
        by (cases "value") (auto simp: tracked_def)
      with b show ?thesis by auto
    qed
  qed
qed




lemma graph_node_obj:
  "get_node_impl h node = Some GraphNodeImpl \<Longrightarrow>
     \<exists>a ty attrs. node = Ref a \<and> a < length h \<and> h ! a = GraphNode ty attrs"
  by (cases node) (auto split: option.splits obj.splits if_splits)

lemma tracked_ref: "tracked h k \<Longrightarrow> \<exists>a. k = Ref a \<and> a < length h"
  unfolding tracked_def by (auto dest: graph_node_obj variable_is_ref)


lemma dense_range: "dense r \<Longrightarrow> map_of r v = Some i \<Longrightarrow> 0 \<le> i \<and> i < int (length r)"
proof -
  assume d: "dense r" and m: "map_of r v = Some i"
  from m have "i \<in> set (map snd r)" by (auto dest!: map_of_SomeD intro: rev_image_eqI)
  with d show ?thesis by (auto simp: dense_def)
qed







lemma rename_registered: "map_of r (Ref a) = Some i \<Longrightarrow> rename r base (Ref a) = Ref (base + nat i)"
  by simp











lemma dense_nth:
  assumes "dense r" "map_of r k = Some i"
  shows "nat i < length r \<and> r ! nat i = (k, i)"
proof -
  from assms(2) have "(k, i) \<in> set r" by (rule map_of_SomeD)
  then obtain j where j: "j < length r" "r ! j = (k, i)" by (auto simp: in_set_conv_nth)
  from assms(1) have "map snd r ! j = map int [0..<length r] ! j" by (simp add: dense_def)
  with j have "i = int j" by simp
  with j show ?thesis by simp
qed

lemma closed_registered:
  assumes "closed h r" "map_of r k = Some i"
  shows "tracked h k" "list_all (\<lambda>kv. covered h r (snd kv)) (fst (node_flatten h k))"
    "nat i < length r" "r ! nat i = (k, i)" "0 \<le> i"
proof -
  from assms(2) have "k \<in> fst ` set r" by (auto dest!: map_of_SomeD intro: rev_image_eqI)
  with assms(1) show "tracked h k"
    "list_all (\<lambda>kv. covered h r (snd kv)) (fst (node_flatten h k))"
    by (auto simp: closed_def)
  from assms(1) have d: "dense r" by (simp add: closed_def)
  from dense_nth[OF d assms(2)] show "nat i < length r" "r ! nat i = (k, i)" by auto
  from dense_range[OF d assms(2)] show "0 \<le> i" by simp
qed

lemma copy_heap_nth:
  assumes "closed h r" "map_of r k = Some i"
  shows "copy_of h r k = Ref (length h + nat i)"
    and "length h + nat i < length (copy_heap h r)"
    and "copy_heap h r ! (length h + nat i) = rename_obj r (length h) (h ! id_of k)"
proof -
  from closed_registered(1)[OF assms] obtain a where a: "k = Ref a" by (auto dest: tracked_ref)
  with assms(2) show "copy_of h r k = Ref (length h + nat i)" by (simp add: copy_of_def)
  from closed_registered(3)[OF assms]
  show "length h + nat i < length (copy_heap h r)" by (simp add: copy_heap_def)
  from closed_registered(3,4)[OF assms]
  show "copy_heap h r ! (length h + nat i) = rename_obj r (length h) (h ! id_of k)"
    by (simp add: copy_heap_def nth_append image_obj_def)
qed

lemma children_graph_node:
  assumes "fst (node_flatten h (Ref a)) \<noteq> []"
  shows "\<exists>ty attrs. a < length h \<and> h ! a = GraphNode ty attrs"
  using assms by (auto split: if_splits obj.splits)

lemma copy_children:
  assumes "closed h r" "covered h r v" "fst (node_flatten h v) \<noteq> []"
  shows "fst (node_flatten (copy_heap h r) (copy_of h r v))
           = map (\<lambda>kv. (fst kv, copy_of h r (snd kv))) (fst (node_flatten h v))"
    and "list_all (\<lambda>kv. covered h r (snd kv)) (fst (node_flatten h v))"
proof -
  have "fst (node_flatten (copy_heap h r) (copy_of h r v))
           = map (\<lambda>kv. (fst kv, copy_of h r (snd kv))) (fst (node_flatten h v)) \<and>
        list_all (\<lambda>kv. covered h r (snd kv)) (fst (node_flatten h v))"
  proof (cases v)
    case (Ref a)
    from children_graph_node[OF assms(3)[unfolded Ref]] obtain ty attrs where
      o: "a < length h" "h ! a = GraphNode ty attrs" by blast
    then have "tracked h v" unfolding Ref by (simp add: tracked_def)
    with assms(2) Ref obtain i where i: "map_of r v = Some i" by auto
    from copy_heap_nth[OF assms(1) i] o Ref
    have "fst (node_flatten (copy_heap h r) (copy_of h r v))
            = map (\<lambda>kv. (fst kv, rename r (length h) (snd kv))) attrs"
      by simp
    with closed_registered(2)[OF assms(1) i] o Ref show ?thesis
      by (simp add: copy_of_def)
  next
    case (Pytree ty items aux)
    with assms(2) show ?thesis by (simp add: copy_of_def)
  next
    case (Array xs)
    with assms(3) show ?thesis by simp
  next
    case (Const c)
    with assms(3) show ?thesis by simp
  qed
  then show "fst (node_flatten (copy_heap h r) (copy_of h r v))
           = map (\<lambda>kv. (fst kv, copy_of h r (snd kv))) (fst (node_flatten h v))"
    and "list_all (\<lambda>kv. covered h r (snd kv)) (fst (node_flatten h v))" by simp_all
qed













lemma flatten_closed:
  assumes "flatten fuel h node with_paths rv None ro = Some (Inr (gd, st, r))"
  shows "closed h r" and "covered h r node"
proof -
  let ?path = "if with_paths then Some [] else None"
  from flatten_InrD[OF assms] obtain impl leaves paths where
    impl: "get_node_impl h node = Some impl" and
    g: "graph_flatten fuel h node impl ?path (case None of None \<Rightarrow> [] | Some r \<Rightarrow> r) ro [] ?path
          rv = Some (Inr (gd, r, leaves, paths))"
    by blast
  from g have g': "graph_flatten fuel h node impl ?path [] ro [] ?path rv
                     = Some (Inr (gd, r, leaves, paths))" by simp
  from slot_inv(1)[of fuel h ro rv node "(impl, ?path, [], [], ?path, gd, r, leaves, paths)"]
    g' impl
  have d: "dense r" unfolding slot_inv_node_def by (simp add: dense_Nil)
  from cover_inv(1)[of fuel h ro rv node "(impl, ?path, [], [], ?path, gd, r, leaves, paths)"]
    g' impl
  have c: "\<forall>k\<in>fst ` set r. tracked h k \<and>
              list_all (\<lambda>kv. covered h r (snd kv)) (fst (node_flatten h k))"
    and cn: "covered h r node"
    unfolding cover_inv_node_def by auto
  from d c show "closed h r" by (simp add: closed_def)
  from cn show "covered h r node" .
qed

lemma no_array_reachable:
  assumes "closed h r"
  shows "covered h r v \<Longrightarrow> \<not> array_at h v p"
proof (induction p arbitrary: v)
  case Nil
  then show ?case by (cases v) auto
next
  case (Cons k ks)
  show ?case
  proof
    assume "array_at h v (k # ks)"
    then obtain kv where kv: "kv \<in> set (fst (node_flatten h v))" "array_at h (snd kv) ks"
      by (auto simp: list_ex_iff)
    then have ne: "fst (node_flatten h v) \<noteq> []" by auto
    from copy_children(2)[OF assms Cons.prems ne] kv(1)
    have "covered h r (snd kv)" by (auto simp: list_all_iff)
    from Cons.IH[OF this] kv(2) show False by simp
  qed
qed

section \<open>Reasoning about the fingerprints of two heaps\<close>

lemma view_eqD:
  assumes "view h1 v = view h2 v"
  shows "get_node_impl h1 v = get_node_impl h2 v" "is_variable h1 v = is_variable h2 v"
    "type_of h1 v = type_of h2 v" "node_flatten h1 v = node_flatten h2 v"
    "var_metadata h1 v = var_metadata h2 v"
  using assms by (simp_all add: view_def)

lemma at_path_child:
  "(k, c) \<in> set (fst (node_flatten h v)) \<Longrightarrow> at_path h c p w \<Longrightarrow> at_path h v (k # p) w"
  unfolding at_path.simps list_ex_iff by (rule bexI[of _ "(k, c)"]) simp_all

lemma stable:
  "stable_node fuel h1 h2 ri node s" "stable_values fuel h1 h2 ri vs s'"
proof (induction fuel node s and fuel vs s' rule: traversal_induct)
  case (1 node s)
  show ?case by (cases s) (auto simp: stable_node_def)
next
  case (2 fuel node s)
  obtain impl m nx where s: "s = (impl, m, nx)" by (cases s) auto
  show ?case
    unfolding s stable_node_def prod.case
  proof (intro impI)
    assume c: "\<forall>p v. at_path h1 node p v \<longrightarrow> view h1 v = view h2 v"
    then have "view h1 node = view h2 node" by (auto intro: at_path.simps(1)[THEN iffD2])
    note v = view_eqD[OF this]
    have ch: "\<forall>kv\<in>set (fst (node_flatten h2 node)). \<forall>p v. at_path h1 (snd kv) p v \<longrightarrow>
                view h1 v = view h2 v"
    proof (intro ballI allI impI)
      fix kv p w assume kv: "kv \<in> set (fst (node_flatten h2 node))" and a: "at_path h1 (snd kv) p w"
      from kv v(4) have "(fst kv, snd kv) \<in> set (fst (node_flatten h1 node))" by simp
      from at_path_child[OF this a] c show "view h1 w = view h2 w" by blast
    qed
    have q: "fingerprint_values fuel h1 (fst (node_flatten h2 node)) ri m' nx'
           = fingerprint_values fuel h2 (fst (node_flatten h2 node)) ri m' nx'" for m' nx'
      using 2[of "fst (node_flatten h2 node)" "(m', nx')"] ch
      unfolding stable_values_def by simp
    show "graph_fingerprint (Suc fuel) h1 node impl ri m nx
            = graph_fingerprint (Suc fuel) h2 node impl ri m nx"
      unfolding graph_fingerprint.simps(2) Let_def v(3) v(4) q by (rule refl)
  qed
next
  case (3 fuel s)
  show ?case by (cases s) (auto simp: stable_values_def)
next
  case (4 fuel key "value" "values" s)
  obtain m nx where s: "s = (m, nx)" by (cases s) auto
  show ?case
    unfolding s stable_values_def prod.case
  proof (intro impI)
    assume c: "\<forall>kv\<in>set ((key, value) # values). \<forall>p v. at_path h1 (snd kv) p v \<longrightarrow>
                 view h1 v = view h2 v"
    then have cv: "\<forall>p v. at_path h1 value p v \<longrightarrow> view h1 v = view h2 v"
      and cr: "\<forall>kv\<in>set values. \<forall>p v. at_path h1 (snd kv) p v \<longrightarrow> view h1 v = view h2 v"
      by auto
    from cv have "view h1 value = view h2 value" by (auto intro: at_path.simps(1)[THEN iffD2])
    note v = view_eqD[OF this]
    have p: "graph_fingerprint fuel h1 value impl ri m' nx'
           = graph_fingerprint fuel h2 value impl ri m' nx'" for impl m' nx'
      using 4(1)[of "(impl, m', nx')"] cv unfolding stable_node_def by simp
    have q: "fingerprint_values fuel h1 values ri m' nx'
           = fingerprint_values fuel h2 values ri m' nx'" for m' nx'
      using 4(2)[of "(m', nx')"] cr unfolding stable_values_def by simp
    show "fingerprint_values fuel h1 ((key, value) # values) ri m nx
            = fingerprint_values fuel h2 ((key, value) # values) ri m nx"
      unfolding fingerprint_values.simps(2) v(1) v(2) v(3) v(5) p q by (rule refl)
  qed
qed

lemma fingerprint_stable:
  assumes "\<forall>p v. at_path h1 node p v \<longrightarrow> view h1 v = view h2 v"
  shows "fingerprint fuel h1 node ri nri = fingerprint fuel h2 node ri nri"
proof -
  from assms have "view h1 node = view h2 node" by (auto intro: at_path.simps(1)[THEN iffD2])
  note v = view_eqD[OF this]
  have eq: "graph_fingerprint fuel h1 node impl ri' m nx
           = graph_fingerprint fuel h2 node impl ri' m nx" for impl ri' m nx
    using stable(1)[of fuel h1 h2 ri' node "(impl, m, nx)"] assms
    unfolding stable_node_def by simp
  show ?thesis unfolding fingerprint_def Let_def v(1) eq by (rule refl)
qed

lemma fcov_mono: "fcov h1 h2 M v \<Longrightarrow> fcov h1 h2 (M @ n) v"
  by (induction h1 h2 M v rule: fcov.induct) (auto simp: list_all_iff map_add_def split: option.splits)

lemma fcov_list_mono:
  "list_all (\<lambda>kv. fcov h1 h2 M (snd kv)) vs \<Longrightarrow> list_all (\<lambda>kv. fcov h1 h2 (M @ n) (snd kv)) vs"
  by (auto simp: list_all_iff intro: fcov_mono)

lemma fcov_registered: "map_of M v = Some i \<Longrightarrow> get_node_impl h1 v \<noteq> Some PytreeNodeImpl \<Longrightarrow> fcov h1 h2 M v"
  by (cases v) auto

lemma view_graph_node:
  assumes "get_node_impl h v = Some GraphNodeImpl"
  shows "view h v = (Some GraphNodeImpl, False, type_of h v, node_flatten h v, [])"
proof -
  from assms obtain a ty attrs where "v = Ref a" "a < length h" "h ! a = GraphNode ty attrs"
    by (auto dest: graph_node_obj)
  then show ?thesis by (simp add: view_def)
qed

lemma view_variable:
  assumes "is_variable h v"
  shows "view h v = (None, True, type_of h v, ([], []), var_metadata h v)"
proof -
  from assms obtain a ty raw md where "v = Ref a" "a < length h" "h ! a = Variable ty raw md"
    by (auto dest: variable_is_ref)
  then show ?thesis by (simp add: view_def)
qed

lemma view_static:
  assumes "get_node_impl h v = None" "\<not> is_variable h v"
  shows "view h v = (None, False, PlainType, ([], []), [])"
  using assms by (cases v) (auto simp: view_def split: if_splits option.splits obj.splits)

lemma view_pytree:
  "view h (Pytree ty items aux) = (Some PytreeNodeImpl, False, PytreeType ty, (items, aux), [])"
  by (simp add: view_def)

lemma same_id_graph_node:
  assumes "get_node_impl h1 u = Some GraphNodeImpl" "get_node_impl h2 v = Some GraphNodeImpl"
    "id_of u = id_of v"
  shows "v = u"
proof -
  from assms(1) obtain a where "u = Ref a" by (auto dest: graph_node_is_ref)
  moreover from assms(2) obtain b where "v = Ref b" by (auto dest: graph_node_is_ref)
  ultimately show ?thesis using assms(3) by simp
qed

lemma same_id_variable:
  assumes "is_variable h1 u" "is_variable h2 v" "id_of u = id_of v"
  shows "v = u"
proof -
  from assms(1) obtain a where "u = Ref a" by (auto dest: variable_is_ref)
  moreover from assms(2) obtain b where "v = Ref b" by (auto dest: variable_is_ref)
  ultimately show ?thesis using assms(3) by simp
qed

lemma fingerprint_values_Cons_nonempty:
  assumes "fingerprint_values fuel h (kv # vs) ri m nx = Some (Inr (attrs, s))"
  shows "attrs \<noteq> []"
proof -
  obtain k v where kv: "kv = (k, v)" by (cases kv)
  from assms[unfolded kv] show ?thesis by (cases rule: fingerprint_values_ConsE) auto
qed

lemma sens:
  "sens_node f1 h1 h2 node1 s" "sens_values f1 h1 h2 vs1 s'"
proof (induction f1 node1 s and f1 vs1 s' rule: traversal_induct)
  case (1 node s)
  show ?case by (cases s) (auto simp: sens_node_def)
next
  case (2 f1 node1 s)
  obtain impl1 m nx fp m1 x1 f2 node2 impl2 m2 x2 where
    s: "s = (impl1, m, nx, fp, m1, x1, f2, node2, impl2, m2, x2)" by (cases s) auto
  let ?K = "\<lambda>M n. \<forall>k\<in>fst ` set n. view h1 k = view h2 k \<and>
            list_all (\<lambda>kv. fcov h1 h2 M (snd kv)) (fst (node_flatten h1 k))"
  show ?case
    unfolding s sens_node_def prod.case
  proof (intro impI)
    assume g1: "graph_fingerprint (Suc f1) h1 node1 impl1 [] m nx = Some (Inr (fp, m1, x1))"
      and g2: "graph_fingerprint f2 h2 node2 impl2 [] m nx = Some (Inr (fp, m2, x2))"
      and i1: "get_node_impl h1 node1 = Some impl1"
      and i2: "get_node_impl h2 node2 = Some impl2"
    from g2 obtain f2' where f2: "f2 = Suc f2'" by (cases f2) auto
    note g2' = g2[unfolded f2]
    let ?goal = "node2 = node1 \<and> m2 = m1 \<and> x2 = x1 \<and> (\<exists>n. m1 = m @ n \<and> ?K m1 n) \<and>
                 fcov h1 h2 m1 node1"
    from g1 show ?goal
    proof (cases rule: graph_fingerprint_SucE)
      case (Old i)
      then show ?thesis by simp
    next
      case (Seen i)
      from Seen(1) i1 have gi1: "get_node_impl h1 node1 = Some GraphNodeImpl"
        by (cases impl1) auto
      from g2' show ?thesis
      proof (cases rule: graph_fingerprint_SucE)
        case (Old j)
        then show ?thesis by simp
      next
        case Seen2: (Seen j)
        from Seen2(1) i2 have gi2: "get_node_impl h2 node2 = Some GraphNodeImpl"
          by (cases impl2) auto
        from Seen(4) Seen2(4) have "id_of node1 = id_of node2" by simp
        from same_id_graph_node[OF gi1 gi2 this] have "node2 = node1" .
        moreover from Seen(3) gi1 have "fcov h1 h2 m node1" by (auto intro: fcov_registered)
        ultimately show ?thesis using Seen(5) Seen2(5) by simp
      next
        case (New attrs2)
        with Seen(4) show ?thesis by simp
      qed
    next
      case (New attrs)
      from g2' show ?thesis
      proof (cases rule: graph_fingerprint_SucE)
        case (Old j)
        then show ?thesis by simp
      next
        case (Seen j)
        with New(3) show ?thesis by simp
      next
        case New2: (New attrs2)
        from New(3) New2(3) have eqs:
          "(if impl1 = GraphNodeImpl then Some (id_of node1) else None)
             = (if impl2 = GraphNodeImpl then Some (id_of node2) else None)"
          "type_of h1 node1 = type_of h2 node2" "attrs2 = attrs"
          "snd (node_flatten h1 node1) = snd (node_flatten h2 node2)"
          by simp_all
        show ?thesis
        proof (cases impl1)
          case GraphNodeImpl
          with eqs(1) have impl2: "impl2 = GraphNodeImpl" and ids: "id_of node1 = id_of node2"
            by (auto split: if_splits)
          from i1 GraphNodeImpl i2 impl2 ids have n2: "node2 = node1"
            by (auto intro: same_id_graph_node)
          from New(1) GraphNodeImpl have fresh: "map_of m node1 = None" by simp
          have u: "AList.update node1 nx m = m @ [(node1, nx)]" using fresh by (rule update_fresh)
          from New(2) GraphNodeImpl u
          have fv1: "fingerprint_values f1 h1 (fst (node_flatten h1 node1)) [] (m @ [(node1, nx)])
                       (nx + 1) = Some (Inr (attrs, m1, x1))" by simp
          from New2(2) impl2 n2 u eqs(3)
          have fv2: "fingerprint_values f2' h2 (fst (node_flatten h2 node1)) [] (m @ [(node1, nx)])
                       (nx + 1) = Some (Inr (attrs, m2, x2))" by simp
          from 2[of "fst (node_flatten h1 node1)"
                   "(m @ [(node1, nx)], nx + 1, attrs, m1, x1, f2',
                     fst (node_flatten h2 node1), m2, x2)"] fv1 fv2
          have "fst (node_flatten h2 node1) = fst (node_flatten h1 node1) \<and> m2 = m1 \<and> x2 = x1 \<and>
            (\<exists>n. m1 = (m @ [(node1, nx)]) @ n \<and> ?K m1 n) \<and>
            list_all (\<lambda>kv. fcov h1 h2 m1 (snd kv)) (fst (node_flatten h1 node1))"
            unfolding sens_values_def prod.case by (rule mp[OF mp])
          then obtain n where a: "fst (node_flatten h2 node1) = fst (node_flatten h1 node1)"
            "m2 = m1" "x2 = x1" "m1 = (m @ [(node1, nx)]) @ n" "?K m1 n"
            "list_all (\<lambda>kv. fcov h1 h2 m1 (snd kv)) (fst (node_flatten h1 node1))"
            by blast
          from a(1) eqs(4) n2 have nf: "node_flatten h1 node1 = node_flatten h2 node1"
            by (simp add: prod_eq_iff)
          from i1 GraphNodeImpl i2 impl2 n2 eqs(2) nf
          have v: "view h1 node1 = view h2 node1" by (simp add: view_graph_node)
          have m1: "m1 = m @ ((node1, nx) # n)" using a(4) by simp
          have "map_of m1 node1 = Some nx" unfolding m1 using fresh by (simp add: map_add_def)
          with i1 GraphNodeImpl have "fcov h1 h2 m1 node1" by (auto intro: fcov_registered)
          moreover from a(5,6) v have "?K m1 ((node1, nx) # n)" by simp
          ultimately show ?thesis using n2 a(2,3) m1 by blast
        next
          case PytreeNodeImpl
          with eqs(1) have impl2: "impl2 = PytreeNodeImpl" by (cases impl2) auto
          from i1 PytreeNodeImpl obtain ty1 it1 au1 where nd1: "node1 = Pytree ty1 it1 au1"
            by (auto dest: pytree_impl)
          from i2 impl2 obtain ty2 it2 au2 where nd2: "node2 = Pytree ty2 it2 au2"
            by (auto dest: pytree_impl)
          from New(2) PytreeNodeImpl nd1
          have fv1: "fingerprint_values f1 h1 it1 [] m nx = Some (Inr (attrs, m1, x1))" by simp
          from New2(2) impl2 nd2 eqs(3)
          have fv2: "fingerprint_values f2' h2 it2 [] m nx = Some (Inr (attrs, m2, x2))" by simp
          from 2[of it1 "(m, nx, attrs, m1, x1, f2', it2, m2, x2)"] fv1 fv2
          have "it2 = it1 \<and> m2 = m1 \<and> x2 = x1 \<and> (\<exists>n. m1 = m @ n \<and> ?K m1 n) \<and>
            list_all (\<lambda>kv. fcov h1 h2 m1 (snd kv)) it1"
            unfolding sens_values_def prod.case by (rule mp[OF mp])
          then obtain n where a: "it2 = it1" "m2 = m1" "x2 = x1" "m1 = m @ n" "?K m1 n"
            "list_all (\<lambda>kv. fcov h1 h2 m1 (snd kv)) it1"
            by blast
          from eqs(2,4) nd1 nd2 a(1) have "node2 = node1" by simp
          moreover from a(6) nd1 have "fcov h1 h2 m1 node1" by simp
          ultimately show ?thesis using a(2,3,4,5) by blast
        qed
      qed
    qed
  qed
next
  case (3 f1 s)
  obtain m nx attrs m1 x1 f2 vs2 m2 x2 where
    s: "s = (m, nx, attrs, m1, x1, f2, vs2, m2, x2)" by (cases s) auto
  show ?case
    unfolding s sens_values_def prod.case
  proof (intro impI)
    assume g1: "fingerprint_values f1 h1 [] [] m nx = Some (Inr (attrs, m1, x1))"
      and g2: "fingerprint_values f2 h2 vs2 [] m nx = Some (Inr (attrs, m2, x2))"
    from g1 have a: "attrs = []" "m1 = m" "x1 = nx" by simp_all
    have "vs2 = []"
    proof (cases vs2)
      case (Cons kv vs)
      with g2 fingerprint_values_Cons_nonempty a(1) show ?thesis by blast
    qed simp
    with g2 a show "vs2 = [] \<and> m2 = m1 \<and> x2 = x1 \<and>
      (\<exists>n. m1 = m @ n \<and>
        (\<forall>k\<in>fst ` set n. view h1 k = view h2 k \<and>
            list_all (\<lambda>kv. fcov h1 h2 m1 (snd kv)) (fst (node_flatten h1 k)))) \<and>
      list_all (\<lambda>kv. fcov h1 h2 m1 (snd kv)) []" by simp
  qed
next
  case (4 f1 key "value" "values" s)
  obtain m nx attrs m1 x1 f2 vs2 m2 x2 where
    s: "s = (m, nx, attrs, m1, x1, f2, vs2, m2, x2)" by (cases s) auto
  let ?K = "\<lambda>M n. \<forall>k\<in>fst ` set n. view h1 k = view h2 k \<and>
            list_all (\<lambda>kv. fcov h1 h2 M (snd kv)) (fst (node_flatten h1 k))"
  show ?case
    unfolding s sens_values_def prod.case
  proof (intro impI)
    assume g1: "fingerprint_values f1 h1 ((key, value) # values) [] m nx
                  = Some (Inr (attrs, m1, x1))"
      and g2: "fingerprint_values f2 h2 vs2 [] m nx = Some (Inr (attrs, m2, x2))"
    from fingerprint_values_Cons_nonempty[OF g1] g2 obtain key2 value2 values2 where
      vs2: "vs2 = (key2, value2) # values2" by (cases vs2) auto
    note g2' = g2[unfolded vs2]
    let ?goal = "vs2 = (key, value) # values \<and> m2 = m1 \<and> x2 = x1 \<and>
                 (\<exists>n. m1 = m @ n \<and> ?K m1 n) \<and>
                 list_all (\<lambda>kv. fcov h1 h2 m1 (snd kv)) ((key, value) # values)"
    have rest: "values2 = values \<and> m2 = m1 \<and> x2 = x1 \<and> (\<exists>n. m1 = ma @ n \<and> ?K m1 n) \<and>
                list_all (\<lambda>kv. fcov h1 h2 m1 (snd kv)) values"
      if "fingerprint_values f1 h1 values [] ma nxa = Some (Inr (as, m1, x1))"
        and "fingerprint_values f2 h2 values2 [] ma nxa = Some (Inr (as, m2, x2))"
      for ma nxa as
      using 4(2)[of "(ma, nxa, as, m1, x1, f2, values2, m2, x2)"] that
      unfolding sens_values_def prod.case by (rule mp[OF mp])
    from g1 show ?goal
    proof (cases rule: fingerprint_values_ConsE)
      case (Node impl fp ma nxa attrs')
      from g2' show ?thesis
      proof (cases rule: fingerprint_values_ConsE)
        case Node2: (Node impl2 fp2 mb nxb attrs2')
        from Node(4) Node2(4) have e: "key2 = key" "fp2 = fp" "attrs2' = attrs'" by simp_all
        from Node2(2) e(2) have g2v: "graph_fingerprint f2 h2 value2 impl2 [] m nx
                                        = Some (Inr (fp, mb, nxb))" by simp
        from 4(1)[of "(impl, m, nx, fp, ma, nxa, f2, value2, impl2, mb, nxb)"]
          Node(2) g2v Node(1) Node2(1)
        have "value2 = value \<and> mb = ma \<and> nxb = nxa \<and> (\<exists>n. ma = m @ n \<and> ?K ma n) \<and>
              fcov h1 h2 ma value"
          unfolding sens_node_def prod.case by (rule mp[OF mp[OF mp[OF mp]]])
        then obtain n1 where a: "value2 = value" "mb = ma" "nxb = nxa" "ma = m @ n1" "?K ma n1"
          "fcov h1 h2 ma value" by blast
        from Node2(3) a(2,3) e(3)
        have r2: "fingerprint_values f2 h2 values2 [] ma nxa = Some (Inr (attrs', m2, x2))"
          by simp
        from rest[OF Node(3) r2]
        obtain n2 where b: "values2 = values" "m2 = m1" "x2 = x1" "m1 = ma @ n2" "?K m1 n2"
          "list_all (\<lambda>kv. fcov h1 h2 m1 (snd kv)) values" by blast
        from a(5) have "?K m1 n1" unfolding b(4) by (auto intro: fcov_list_mono)
        with b(5) have "?K m1 (n1 @ n2)" by auto
        moreover have "m1 = m @ (n1 @ n2)" using a(4) b(4) by simp
        moreover from a(6) have "fcov h1 h2 m1 value" unfolding b(4) by (rule fcov_mono)
        ultimately show ?thesis using vs2 e(1) a(1) b(1,2,3,6) by (intro conjI exI[of _ "n1 @ n2"]) simp_all
      qed (use Node(4) in simp_all)
    next
      case (VarOld i attrs')
      then show ?thesis by simp
    next
      case (VarSeen i attrs')
      from g2' show ?thesis
      proof (cases rule: fingerprint_values_ConsE)
        case (VarOld j attrs2')
        then show ?thesis by simp
      next
        case VarSeen2: (VarSeen j attrs2')
        from VarSeen(6) VarSeen2(6) have e: "key2 = key" "id_of value = id_of value2"
          "attrs2' = attrs'" by simp_all
        from same_id_variable[OF VarSeen(2) VarSeen2(2) e(2)] have v2: "value2 = value" .
        from VarSeen2(5) e(3)
        have r2: "fingerprint_values f2 h2 values2 [] m nx = Some (Inr (attrs', m2, x2))" by simp
        from rest[OF VarSeen(5) r2]
        obtain n where b: "values2 = values" "m2 = m1" "x2 = x1" "m1 = m @ n" "?K m1 n"
          "list_all (\<lambda>kv. fcov h1 h2 m1 (snd kv)) values" by blast
        from VarSeen(1,4) have "fcov h1 h2 m value" by (auto intro: fcov_registered)
        then have "fcov h1 h2 m1 value" unfolding b(4) by (rule fcov_mono)
        with vs2 e(1) v2 b show ?thesis by auto
      qed (use VarSeen(6) in simp_all)
    next
      case (Var attrs')
      from g2' show ?thesis
      proof (cases rule: fingerprint_values_ConsE)
        case Var2: (Var attrs2')
        from Var(6) Var2(6) have e: "key2 = key" "id_of value = id_of value2"
          "type_of h1 value = type_of h2 value2" "var_metadata h1 value = var_metadata h2 value2"
          "attrs2' = attrs'" by simp_all
        from same_id_variable[OF Var(2) Var2(2) e(2)] have v2: "value2 = value" .
        have u: "AList.update value nx m = m @ [(value, nx)]" using Var(4) by (rule update_fresh)
        from Var(5) u
        have r1: "fingerprint_values f1 h1 values [] (m @ [(value, nx)]) (nx + 1)
                    = Some (Inr (attrs', m1, x1))" by simp
        from Var2(5) e(5) v2 u
        have r2: "fingerprint_values f2 h2 values2 [] (m @ [(value, nx)]) (nx + 1)
                    = Some (Inr (attrs', m2, x2))" by simp
        from rest[OF r1 r2]
        obtain n where b: "values2 = values" "m2 = m1" "x2 = x1" "m1 = (m @ [(value, nx)]) @ n"
          "?K m1 n" "list_all (\<lambda>kv. fcov h1 h2 m1 (snd kv)) values" by blast
        from Var(2) Var2(2) v2 e(3,4) have v: "view h1 value = view h2 value"
          by (simp add: view_variable)
        from Var(2) have nc: "fst (node_flatten h1 value) = []"
          by (rule variable_no_children)
        have m1: "m1 = m @ ((value, nx) # n)" using b(4) by simp
        have "map_of m1 value = Some nx" unfolding m1 using Var(4) by (simp add: map_add_def)
        with Var(1) have "fcov h1 h2 m1 value" by (auto intro: fcov_registered)
        moreover from b(5) v nc have "?K m1 ((value, nx) # n)" by simp
        ultimately show ?thesis using vs2 e(1) v2 b(1,2,3,6) m1
          by (intro conjI exI[of _ "(value, nx) # n"]) simp_all
      qed (use Var(6) in simp_all)
    next
      case (Static attrs')
      from g2' show ?thesis
      proof (cases rule: fingerprint_values_ConsE)
        case Static2: (Static attrs2')
        from Static(5) Static2(5) have e: "key2 = key" "value2 = value" "attrs2' = attrs'"
          by simp_all
        from Static2(4) e(3)
        have r2: "fingerprint_values f2 h2 values2 [] m nx = Some (Inr (attrs', m2, x2))" by simp
        from rest[OF Static(4) r2]
        obtain n where b: "values2 = values" "m2 = m1" "x2 = x1" "m1 = m @ n" "?K m1 n"
          "list_all (\<lambda>kv. fcov h1 h2 m1 (snd kv)) values" by blast
        from Static(1,2) Static2(1,2) e(2) have v: "view h1 value = view h2 value"
          by (simp add: view_static)
        from Static(1) have "fst (node_flatten h1 value) = []"
          by (cases "value") (auto split: if_splits option.splits obj.splits)
        with v Static(1) have "fcov h1 h2 m1 value" by (cases "value") auto
        with vs2 e(1,2) b show ?thesis by auto
      qed (use Static(5) in simp_all)
    qed
  qed
qed

lemma reach_view:
  assumes K: "\<forall>k\<in>fst ` set M. view h1 k = view h2 k \<and>
                list_all (\<lambda>kv. fcov h1 h2 M (snd kv)) (fst (node_flatten h1 k))"
  shows "fcov h1 h2 M v \<Longrightarrow> at_path h1 v p w \<Longrightarrow> view h1 w = view h2 w"
proof (induction p arbitrary: v)
  case Nil
  then have w: "w = v" by simp
  show ?case
  proof (cases "map_of M v")
    case (Some i)
    then have "v \<in> fst ` set M" by (auto dest!: map_of_SomeD intro: rev_image_eqI)
    with K w show ?thesis by blast
  next
    case None
    with Nil.prems(1) w show ?thesis by (cases v) (auto simp: view_pytree)
  qed
next
  case (Cons k ks)
  from Cons.prems(2) obtain kv where kv: "kv \<in> set (fst (node_flatten h1 v))"
    "at_path h1 (snd kv) ks w" by (auto simp: list_ex_iff)
  have "list_all (\<lambda>kv. fcov h1 h2 M (snd kv)) (fst (node_flatten h1 v))"
  proof (cases "map_of M v")
    case (Some i)
    then have "v \<in> fst ` set M" by (auto dest!: map_of_SomeD intro: rev_image_eqI)
    with K show ?thesis by blast
  next
    case None
    with Cons.prems(1) kv(1) show ?thesis by (cases v) auto
  qed
  with kv(1) have "fcov h1 h2 M (snd kv)" by (auto simp: list_all_iff)
  from Cons.IH[OF this kv(2)] show ?case .
qed

lemma fingerprint_sensitive:
  assumes "fingerprint f1 h1 node None None = Some (Inr fp)"
    and "fingerprint f2 h2 node None None = Some (Inr fp)"
  shows "at_path h1 node p v \<Longrightarrow> view h1 v = view h2 v"
proof -
  from fingerprint_InrD[OF assms(1)] obtain impl1 m1 x1 where
    i1: "get_node_impl h1 node = Some impl1" and
    g1: "graph_fingerprint f1 h1 node impl1 [] [] 0 = Some (Inr (fp, m1, x1))" by auto
  from fingerprint_InrD[OF assms(2)] obtain impl2 m2 x2 where
    i2: "get_node_impl h2 node = Some impl2" and
    g2: "graph_fingerprint f2 h2 node impl2 [] [] 0 = Some (Inr (fp, m2, x2))" by auto
  from sens(1)[of f1 h1 h2 node "(impl1, [], 0, fp, m1, x1, f2, node, impl2, m2, x2)"] g1 g2 i1 i2
  have "node = node \<and> m2 = m1 \<and> x2 = x1 \<and>
     (\<exists>n. m1 = [] @ n \<and>
        (\<forall>k\<in>fst ` set n. view h1 k = view h2 k \<and>
            list_all (\<lambda>kv. fcov h1 h2 m1 (snd kv)) (fst (node_flatten h1 k)))) \<and>
     fcov h1 h2 m1 node"
    unfolding sens_node_def prod.case by (rule mp[OF mp[OF mp[OF mp]]])
  then have K: "\<forall>k\<in>fst ` set m1. view h1 k = view h2 k \<and>
            list_all (\<lambda>kv. fcov h1 h2 m1 (snd kv)) (fst (node_flatten h1 k))"
    and c: "fcov h1 h2 m1 node" by auto
  assume "at_path h1 node p v"
  from reach_view[OF K c this] show ?thesis .
qed

lemma fp_append_Some:
  "x = Some res \<Longrightarrow> \<exists>res'. fp_append a x = Some res' \<and>
     (\<forall>as s. res' = Inr (as, s) \<longrightarrow> (\<exists>as'. res = Inr (as', s)))"
  by (cases "(a, x)" rule: fp_append.cases) auto

lemma fp_returns:
  "fp_returns_node fuel h ri node s" "fp_returns_values fuel h ri vs s'"
proof (induction fuel node s and fuel vs s' rule: traversal_induct)
  case (1 node s)
  show ?case by (cases s) (auto simp: fp_returns_node_def)
next
  case (2 fuel node s)
  obtain impl m nx where s: "s = (impl, m, nx)" by (cases s) auto
  show ?case
    unfolding s fp_returns_node_def prod.case
  proof (intro impI)
    assume impl: "get_node_impl h node = Some impl"
      and fuel: "weight node + unvisited h (ri @ m) < Suc fuel"
    let ?goal = "\<exists>res. graph_fingerprint (Suc fuel) h node impl ri m nx = Some res \<and>
            (\<forall>fp m' x'. res = Inr (fp, m', x') \<longrightarrow> (\<exists>n. m' = m @ n))"
    show ?goal
    proof (cases "impl \<noteq> PytreeNodeImpl \<and> (map_of ri node \<noteq> None \<or> map_of m node \<noteq> None)")
      case True
      then show ?thesis by auto
    next
      case False
      show ?thesis
      proof (cases impl)
        case GraphNodeImpl
        with False have fresh: "map_of ri node = None" "map_of m node = None" by simp_all
        from impl GraphNodeImpl obtain a where a: "node = Ref a"
          by (auto dest: graph_node_is_ref)
        have m1: "AList.update node nx m = m @ [(node, nx)]"
          using fresh(2) by (rule update_fresh)
        from fresh have "map_of (ri @ m) node = None" by (simp add: map_add_def)
        from unvisited_register[of h a "ri @ m" nx] impl GraphNodeImpl this a fuel
        have "weights (fst (node_flatten h node)) + unvisited h (ri @ (m @ [(node, nx)])) < fuel"
          by simp
        with 2[of "fst (node_flatten h node)" "(m @ [(node, nx)], nx + 1)"]
        obtain res where res:
          "fingerprint_values fuel h (fst (node_flatten h node)) ri (m @ [(node, nx)]) (nx + 1)
             = Some res"
          "\<And>attrs m' x'. res = Inr (attrs, m', x') \<Longrightarrow> \<exists>n. m' = m @ [(node, nx)] @ n"
          unfolding fp_returns_values_def by auto
        show ?thesis
        proof (cases res)
          case (Inl e)
          with res(1) fresh GraphNodeImpl m1 show ?thesis by (simp add: Let_def)
        next
          case (Inr x)
          obtain attrs m' x' where x: "x = (attrs, m', x')" by (cases x) auto
          from res(2)[of attrs m' x'] Inr x have "\<exists>n. m' = m @ n" by auto
          with res(1) Inr x fresh GraphNodeImpl m1 show ?thesis by (simp add: Let_def)
        qed
      next
        case PytreeNodeImpl
        from impl PytreeNodeImpl obtain ty items aux where n: "node = Pytree ty items aux"
          by (auto dest: pytree_impl)
        with fuel have "weights (fst (node_flatten h node)) + unvisited h (ri @ m) < fuel" by simp
        with 2[of "fst (node_flatten h node)" "(m, nx)"]
        obtain res where res:
          "fingerprint_values fuel h (fst (node_flatten h node)) ri m nx = Some res"
          "\<And>attrs m' x'. res = Inr (attrs, m', x') \<Longrightarrow> \<exists>n. m' = m @ n"
          unfolding fp_returns_values_def by auto
        show ?thesis
        proof (cases res)
          case (Inl e)
          with res(1) PytreeNodeImpl show ?thesis by (simp add: Let_def)
        next
          case (Inr x)
          obtain attrs m' x' where x: "x = (attrs, m', x')" by (cases x) auto
          from res(2)[of attrs m' x'] Inr x have "\<exists>n. m' = m @ n" by auto
          with res(1) Inr x PytreeNodeImpl show ?thesis by (simp add: Let_def)
        qed
      qed
    qed
  qed
next
  case (3 fuel s)
  show ?case by (cases s) (auto simp: fp_returns_values_def)
next
  case (4 fuel key "value" "values" s)
  obtain m nx where s: "s = (m, nx)" by (cases s) auto
  show ?case
    unfolding s fp_returns_values_def prod.case
  proof (intro impI)
    assume fuel: "weights ((key, value) # values) + unvisited h (ri @ m) < fuel"
    then have fv: "weight value + unvisited h (ri @ m) < fuel"
      and fvs: "weights values + unvisited h (ri @ m) < fuel" by auto
    have rest: "\<exists>res. fingerprint_values fuel h values ri (m @ n) nx' = Some res \<and>
                  (\<forall>attrs m' x'. res = Inr (attrs, m', x') \<longrightarrow> (\<exists>k. m' = m @ k))" for n nx'
    proof -
      from fvs unvisited_mono[of h "ri @ m" n]
      have "weights values + unvisited h (ri @ (m @ n)) < fuel" by simp
      with 4(2)[of "(m @ n, nx')"] show ?thesis
        unfolding fp_returns_values_def by auto
    qed
    have app: "\<exists>res2. fp_append a (fingerprint_values fuel h values ri (m @ n) nx') = Some res2 \<and>
               (\<forall>attrs m' x'. res2 = Inr (attrs, m', x') \<longrightarrow> (\<exists>k. m' = m @ k))" for a n nx'
    proof -
      from rest[of n nx'] obtain res' where res':
        "fingerprint_values fuel h values ri (m @ n) nx' = Some res'"
        "\<And>attrs m' x'. res' = Inr (attrs, m', x') \<Longrightarrow> \<exists>k. m' = m @ k" by auto
      from fp_append_Some[OF res'(1), of a] res'(2) show ?thesis by (metis res'(1))
    qed
    let ?goal = "\<exists>res. fingerprint_values fuel h ((key, value) # values) ri m nx = Some res \<and>
            (\<forall>attrs m' x'. res = Inr (attrs, m', x') \<longrightarrow> (\<exists>n. m' = m @ n))"
    show ?goal
    proof (cases "get_node_impl h value")
      case (Some impl)
      from 4(1)[of "(impl, m, nx)"] Some fv
      obtain res where res:
        "graph_fingerprint fuel h value impl ri m nx = Some res"
        "\<And>fp m' x'. res = Inr (fp, m', x') \<Longrightarrow> \<exists>n. m' = m @ n"
        unfolding fp_returns_node_def by auto
      show ?thesis
      proof (cases res)
        case (Inl e)
        with res(1) Some show ?thesis by simp
      next
        case (Inr x)
        obtain fp m1 x1 where x: "x = (fp, m1, x1)" by (cases x) auto
        from res(2)[of fp m1 x1] Inr x obtain n where n: "m1 = m @ n" by auto
        from app[of "FpSub key fp" n x1] res(1) Inr x n Some show ?thesis by simp
      qed
    next
      case None
      show ?thesis
      proof (cases "is_variable h value")
        case True
        show ?thesis
        proof (cases "map_of ri value")
          case (Some i)
          from app[of "FpVarRef key (id_of value) (type_of h value) i" "[]" nx]
            None True Some show ?thesis by simp
        next
          case None': None
          show ?thesis
          proof (cases "map_of m value")
            case (Some i)
            from app[of "FpVarRef key (id_of value) (type_of h value) i" "[]" nx]
              None True None' Some show ?thesis by simp
          next
            case None'': None
            have m1: "AList.update value nx m = m @ [(value, nx)]"
              using None'' by (rule update_fresh)
            from app[of "FpVar key (id_of value) (type_of h value) nx (var_metadata h value)"
                        "[(value, nx)]" "nx + 1"]
              None True None' None'' m1 show ?thesis by simp
          qed
        qed
      next
        case False
        show ?thesis
        proof (cases "is_array value")
          case True
          with None False show ?thesis by simp
        next
          case False': False
          from app[of "FpStatic key value" "[]" nx] None False False' show ?thesis by simp
        qed
      qed
    qed
  qed
qed

lemma fingerprint_returns:
  assumes "weight node + unvisited h ((case ri of None \<Rightarrow> [] | Some r \<Rightarrow> r) @
             (case nri of None \<Rightarrow> [] | Some r \<Rightarrow> r)) < fuel"
  shows "fingerprint fuel h node ri nri \<noteq> None"
proof (cases "get_node_impl h node")
  case None
  then show ?thesis by (simp add: fingerprint_def)
next
  case (Some impl)
  let ?ri = "case ri of None \<Rightarrow> [] | Some r \<Rightarrow> r"
  let ?m = "case nri of None \<Rightarrow> [] | Some r \<Rightarrow> r"
  from fp_returns(1)[of fuel h ?ri node "(impl, ?m, int (length ?ri) + int (length ?m))"]
    Some assms
  obtain res where "graph_fingerprint fuel h node impl ?ri ?m (int (length ?ri) + int (length ?m))
      = Some res"
    unfolding fp_returns_node_def by auto
  with Some show ?thesis
    by (cases res) (auto simp: fingerprint_def Let_def split: prod.splits)
qed

section \<open>Leaf-count mismatch\<close>

text \<open>
  C7: unflatten fails with a leaf-count error whenever the leaves do not match the
  descriptor's demand: no run returns a node unless the number of leaves is exactly the
  number of \<open>VariableDef\<close>s; and where a run with the matching leaves returns a node, the
  run with extra leaves fails after the top-level call with the number of leaves left over,
  and the run with any shorter prefix fails at the \<open>VariableDef\<close> that finds the queue
  empty.
\<close>

theorem leaf_count_mismatch_detected:
  "(unflatten h d st ir oior = Inr res \<longrightarrow> length (leaves_of_state st) = count_leaves d)
   \<and> (unflatten h d st ir oior = Inr res \<longrightarrow> extra \<noteq> [] \<longrightarrow>
        unflatten h d (LeafList (leaves_of_state st @ extra)) ir oior
          = Inl (ExtraLeaves (length extra)))
   \<and> (unflatten h d st ir oior = Inr res \<longrightarrow> n < length (leaves_of_state st) \<longrightarrow>
        unflatten h d (LeafList (take n (leaves_of_state st))) ir oior = Inl NotEnoughLeaves)"
proof (cases d)
  case (NodeRef ty i)
  show ?thesis
    unfolding NodeRef unflatten_def Let_def
    by (auto split: option.splits if_splits)
next
  case (VariableDef ty i oi md)
  show ?thesis unfolding VariableDef unflatten_def Let_def by simp
next
  case (Static v)
  show ?thesis unfolding Static unflatten_def Let_def by simp
next
  case (NodeDef ty i oi attrs md)
  let ?ir = "case ir of None \<Rightarrow> [] | Some m \<Rightarrow> m"
  let ?L = "leaves_of_state st"
  have run: "unflatten h d (LeafList K) ir oior =
      (case get_node_impl_for_type ty of None \<Rightarrow> Inl UnsupportedType
       | Some impl \<Rightarrow>
           (case graph_unflatten h d impl K ?ir oior of Inl e \<Rightarrow> Inl e
            | Inr (node, h1, leaves1, ir1) \<Rightarrow>
                if leaves1 \<noteq> [] then Inl (ExtraLeaves (length leaves1))
                else Inr (node, h1, ir1)))" for K
    unfolding NodeDef unflatten_def Let_def by (simp split: option.splits)
  have same: "unflatten h d st ir oior = unflatten h d (LeafList ?L) ir oior"
    unfolding NodeDef unflatten_def Let_def
    by (cases "get_node_impl_for_type ty") simp_all
  show ?thesis
  proof (cases "unflatten h d st ir oior")
    case (Inl e)
    then show ?thesis by simp
  next
    case (Inr r)
    with same have ok: "unflatten h d (LeafList ?L) ir oior = Inr r" by simp
    then obtain impl where impl: "get_node_impl_for_type ty = Some impl"
      unfolding run by (cases "get_node_impl_for_type ty") auto
    from ok impl obtain node h1 ir1 where
      g: "graph_unflatten h d impl ?L ?ir oior = Inr (node, h1, [], ir1)"
      unfolding run by (auto split: sum.splits if_splits)
    from leaves_frame(1)[of d "(h, impl, ?L, ?ir, oior, node, h1, [], ir1)"] g
    have len: "length ?L = count_leaves d"
      and frame: "\<And>rest. graph_unflatten h d impl (?L @ rest) ?ir oior
                           = Inr (node, h1, rest, ir1)"
      unfolding leaves_frame_node_def by auto
    have short: "graph_unflatten h d impl (take n ?L) ?ir oior = Inl NotEnoughLeaves"
      if "n < length ?L"
      using starve(1)[of d "(h, impl, ?L, ?ir, oior, (node, h1, [], ir1), n)"] g that len
      unfolding starve_node_def by simp
    show ?thesis
      using len Inr
      by (auto simp: run impl frame short)
  qed
qed

theorem leaf_count_mismatch_detected_witness:
  "unflatten [] one_variable_def (LeafList [Leaf (Array [1])]) None None
     = Inr (Ref 0, [GraphNode ''M'' [(''w'', Ref 1)], Variable ''Param'' (Array [1]) []],
            [(0, Ref 0), (1, Ref 1)])
   \<and> length [Leaf (Array [1])] = count_leaves one_variable_def
   \<and> unflatten [] one_variable_def (LeafList [Leaf (Array [1]), Leaf (Const 0)]) None None
     = Inl (ExtraLeaves 1)
   \<and> unflatten [] one_variable_def (LeafList []) None None = Inl NotEnoughLeaves"
  using leaf_count_mismatch_detected[of "[]" one_variable_def "LeafList [Leaf (Array [1])]"
          None None
          "(Ref 0, [GraphNode ''M'' [(''w'', Ref 1)], Variable ''Param'' (Array [1]) []],
            [(0, Ref 0), (1, Ref 1)])" "[Leaf (Const 0)]" 0]
  by (simp add: unflatten_def one_variable_def_def)

section \<open>Arrays are rejected as static values\<close>

text \<open>
  C10 (as stated): whenever flatten meets an array as a non-Variable attribute value it
  fails, and the error names the offending path, whatever the flags.  With
  \<open>with_paths = False\<close> the traversal keeps no path and the error carries none.
\<close>

theorem array_error_without_path:
  "flatten (Suc (Suc 0)) array_node_heap (Ref 0) False False None None
     = Some (Inl (ArrayLeaf None))"
  by (simp add: flatten_def array_node_heap_def)

text \<open>
  C10 (amended): when the loop over a node's children reaches an array, flatten fails
  there instead of emitting a \<open>Static\<close>; a descriptor that flatten returns holds no array
  as a static value and, when the traversal started from a fresh reference map, no path of
  keys leads from the root to an array held as an attribute; and when flatten fails for an
  array, with \<open>with_paths\<close> set the error carries the path of keys that leads from the root
  to an array held as an attribute, and without \<open>with_paths\<close> it carries no path.
\<close>

theorem array_static_rejected:
  "flatten_values fuel h ((key, Array xs) # values) path ref_index ref_outer_index leaves
     paths return_variables
     = Some (Inl (ArrayLeaf (map_option (\<lambda>p. p @ [key]) path)))
   \<and> (flatten fuel h node with_paths return_variables ri ro = Some (Inr (gd, st, r))
        \<longrightarrow> \<not> has_static_array gd \<and> (ri = None \<longrightarrow> \<not> array_at h node p))
   \<and> (flatten fuel h node with_paths return_variables ri ro = Some (Inl (ArrayLeaf q))
        \<longrightarrow> (if with_paths then \<exists>p. q = Some p \<and> p \<noteq> [] \<and> array_at h node p
             else q = None))"
proof (intro conjI impI)
  show "flatten_values fuel h ((key, Array xs) # values) path ref_index ref_outer_index
          leaves paths return_variables
          = Some (Inl (ArrayLeaf (map_option (\<lambda>p. p @ [key]) path)))"
    by simp
next
  assume "flatten fuel h node with_paths return_variables ri ro = Some (Inr (gd, st, r))"
  from flatten_InrD[OF this] show "\<not> has_static_array gd"
    using flatten_no_static_array(1) by blast
next
  assume f: "flatten fuel h node with_paths return_variables ri ro = Some (Inr (gd, st, r))"
    and "ri = None"
  then have "flatten fuel h node with_paths return_variables None ro = Some (Inr (gd, st, r))"
    by simp
  from no_array_reachable[OF flatten_closed[OF this]] show "\<not> array_at h node p" .
next
  assume "flatten fuel h node with_paths return_variables ri ro = Some (Inl (ArrayLeaf q))"
  from flatten_InlD[OF this] obtain impl where
    g: "graph_flatten fuel h node impl (if with_paths then Some [] else None)
       (case ri of None \<Rightarrow> [] | Some r \<Rightarrow> r) ro []
       (if with_paths then Some [] else None) return_variables = Some (Inl (ArrayLeaf q))"
    by auto
  from error_inv(1)[of fuel h ro return_variables node
         "(impl, if with_paths then Some [] else None, case ri of None \<Rightarrow> [] | Some r \<Rightarrow> r,
           [], if with_paths then Some [] else None, ArrayLeaf q)"] g
  have "names_array h node (if with_paths then Some [] else None) (ArrayLeaf q)"
    unfolding error_inv_node_def by simp
  then show "if with_paths then \<exists>p. q = Some p \<and> p \<noteq> [] \<and> array_at h node p else q = None"
    by (cases with_paths) (auto simp: names_array_def split: option.splits)
qed

theorem array_static_rejected_witness:
  "flatten (Suc (Suc (Suc 0))) nested_array_heap (Ref 0) True False None None
     = Some (Inl (ArrayLeaf (Some [''a'', ''w''])))
   \<and> array_at nested_array_heap (Ref 0) [''a'', ''w'']
   \<and> \<not> array_at nested_array_heap (Ref 0) [''w'']
   \<and> flatten (Suc (Suc (Suc 0))) nested_array_heap (Ref 0) False False None None
     = Some (Inl (ArrayLeaf None))
   \<and> flatten (Suc (Suc 0)) static_node_heap (Ref 0) True False None None
     = Some (Inr (NodeDef (GraphType ''M'') 0 None [(''n'', Static (Const 3))] ''M'',
                  FlatState [], [(Ref 0, 0)]))
   \<and> \<not> has_static_array (NodeDef (GraphType ''M'') 0 None [(''n'', Static (Const 3))] ''M'')
   \<and> \<not> array_at static_node_heap (Ref 0) [''n'']"
  using
    array_static_rejected[where fuel = "Suc (Suc (Suc 0))" and h = nested_array_heap
      and node = "Ref 0" and with_paths = True and return_variables = False and ri = None
      and ro = None and q = "Some [''a'', ''w'']"]
    array_static_rejected[where fuel = "Suc (Suc (Suc 0))" and h = nested_array_heap
      and node = "Ref 0" and with_paths = False and return_variables = False and ri = None
      and ro = None and q = None]
    array_static_rejected[where fuel = "Suc (Suc 0)" and h = static_node_heap
      and node = "Ref 0" and with_paths = True and return_variables = False and ri = None
      and ro = None
      and gd = "NodeDef (GraphType ''M'') 0 None [(''n'', Static (Const 3))] ''M''"
      and st = "FlatState []" and r = "[(Ref 0, 0)]" and p = "[''n'']"]
  by (simp add: flatten_def nested_array_heap_def static_node_heap_def)

section \<open>The update context\<close>

text \<open>
  C8 (as stated): the four calls must occur in the order 1-2-3-4, and a second split without
  an intervening merge fails with a usage error.  \<open>flatten_end\<close> has no such check: the
  second split of the same node returns what the first returned.
\<close>

theorem second_split_proceeds:
  "update_context_split (Suc (Suc 0)) (new_update_context ''example'') dict_heap (Ref 0)
     = Some (Inr (NodeDef (GraphType ''Dict'') 0 None [] ''Dict'', State [], after_outer_split))
   \<and> update_context_split (Suc (Suc 0)) after_outer_split dict_heap (Ref 0)
     = Some (Inr (NodeDef (GraphType ''Dict'') 0 None [] ''Dict'', State [], after_outer_split))"
  by (simp add: update_context_split_def flatten_def new_update_context_def
        dict_heap_def flatten_end_def invert_map_def after_outer_split_def)

text \<open>
  C8 (amended): a merge before the first split fails with the usage error
  "Cannot merge without ref_index".  The context checks nothing else of the order: a second
  split right after the outer split does not fail, it returns the same descriptor and state
  and leaves the context as the outer split left it.
\<close>

theorem update_context_order:
  "(outer_ref_outer_index ctx = None \<longrightarrow>
      update_context_merge ctx h (NodeDef ty index outer_index attributes metadata) st
        = Inl CannotMergeWithoutRefIndex)
   \<and> (update_context_split fuel (new_update_context t) h node = Some (Inr (gd, st', ctx1)) \<longrightarrow>
        update_context_split fuel ctx1 h node = Some (Inr (gd, st', ctx1)))"
proof (intro conjI impI)
  assume "outer_ref_outer_index ctx = None"
  then show "update_context_merge ctx h (NodeDef ty index outer_index attributes metadata) st
        = Inl CannotMergeWithoutRefIndex"
    by (simp add: update_context_merge_def)
next
  assume a: "update_context_split fuel (new_update_context t) h node = Some (Inr (gd, st', ctx1))"
  let ?f = "flatten fuel h node True False (Some []) None"
  from a obtain fs r where f: "?f = Some (Inr (gd, fs, r))"
    and st: "st' = (case fs of FlatState xs \<Rightarrow> State xs | s \<Rightarrow> s)"
    and c: "ctx1 = flatten_end (new_update_context t) r"
    by (auto simp: update_context_split_def new_update_context_def
             split: option.splits sum.splits)
  from c have i: "inner_ref_outer_index ctx1 = None"
    and e: "flatten_end ctx1 r = ctx1"
    by (simp_all add: flatten_end_def new_update_context_def)
  show "update_context_split fuel ctx1 h node = Some (Inr (gd, st', ctx1))"
    by (simp add: update_context_split_def i f st e)
qed

theorem update_context_order_witness:
  "outer_ref_outer_index (new_update_context ''example'') = None
   \<and> update_context_merge (new_update_context ''example'') dict_heap
       (NodeDef (GraphType ''Dict'') 0 None [] ''Dict'') (State [])
       = Inl CannotMergeWithoutRefIndex
   \<and> update_context_split (Suc (Suc 0)) (new_update_context ''example'') dict_heap (Ref 0)
       = Some (Inr (NodeDef (GraphType ''Dict'') 0 None [] ''Dict'', State [], after_outer_split))
   \<and> update_context_split (Suc (Suc 0)) after_outer_split dict_heap (Ref 0)
       = Some (Inr (NodeDef (GraphType ''Dict'') 0 None [] ''Dict'', State [], after_outer_split))"
  using update_context_order[of "new_update_context ''example''" dict_heap "GraphType ''Dict''"
          0 None "[]" "''Dict''" "State []" "Suc (Suc 0)" "''example''" "Ref 0"
          "NodeDef (GraphType ''Dict'') 0 None [] ''Dict''" "State []" after_outer_split]
  by (simp add: update_context_split_def flatten_def new_update_context_def
        dict_heap_def flatten_end_def invert_map_def after_outer_split_def)

text \<open>
  C9: after the inner split the inner maps are cleared, and after the outer merge the outer
  maps are cleared.  \<open>UpdateContext.merge\<close> always calls \<open>unflatten_end(index_ref, True)\<close>,
  which only stores the inner maps: at the end of the four calls on \<open>nnx.Dict({})\<close> the
  outer maps still hold \<open>m1\<close>, and the inner maps are populated again.
\<close>

theorem outer_maps_survive_outer_merge:
  "update_context_round_trip (Suc (Suc 0)) (new_update_context ''example'') dict_heap (Ref 0)
     = Some (Inr (Ref 0,
          [GraphNode ''Dict'' [(''a'', Const 1), (''ref'', Ref 0)],
           GraphNode ''Dict'' [(''a'', Const 1), (''ref'', Ref 1)]],
          \<lparr>tag = ''example'', outer_ref_outer_index = Some [(Ref 0, 0)],
           outer_index_inner_ref = Some [(0, Ref 0)],
           outer_index_outer_ref = Some [(0, Ref 0)],
           inner_ref_outer_index = Some [(Ref 0, 0)]\<rparr>))"
  by (simp add: update_context_round_trip_def update_context_split_def
        update_context_merge_def flatten_def unflatten_def new_update_context_def
        dict_heap_def flatten_end_def unflatten_end_def invert_map_def
        get_sorted_leaves_def)

section \<open>Reference maps are keyed by identity\<close>

text \<open>
  C5 (as stated): in every traversal two distinct objects with equal contents get two
  distinct indexes, and the second is never emitted as a \<open>NodeRef\<close> to the first.  The index
  of a new object is the size of \<open>ref_index\<close>, and \<open>ref_index\<close> is a parameter of flatten:
  started with the map \<open>{q: 2}\<close>, where \<open>p\<close> and \<open>q\<close> are the two Variables of the root, the
  traversal gives the root the index \<open>1\<close> and \<open>p\<close> the index \<open>2\<close>, which \<open>q\<close> has already, and
  \<open>q\<close> is emitted as a \<open>NodeRef\<close> to it; unflatten then puts one Variable in both slots.
\<close>

theorem supplied_map_reuses_index:
  "flatten (Suc (Suc 0)) twin_heap (Ref 0) False False (Some [(Ref 2, 2)]) None
     = Some (Inr (NodeDef (GraphType ''M'') 1 None
                    [(''p'', VariableDef (VariableType ''Param'') 2 None []),
                     (''q'', NodeRef (VariableType ''Param'') 2)] ''M'',
                  LeafList [Leaf (Array [1, 2])],
                  [(Ref 2, 2), (Ref 0, 1), (Ref 1, 2)]))
   \<and> unflatten twin_heap
       (NodeDef (GraphType ''M'') 1 None
          [(''p'', VariableDef (VariableType ''Param'') 2 None []),
           (''q'', NodeRef (VariableType ''Param'') 2)] ''M'')
       (LeafList [Leaf (Array [1, 2])]) None None
     = Inr (Ref 3,
            twin_heap @ [GraphNode ''M'' [(''p'', Ref 4), (''q'', Ref 4)],
                         Variable ''Param'' (Array [1, 2]) []],
            [(1, Ref 3), (2, Ref 4)])"
  by (simp add: flatten_def unflatten_def twin_heap_def)

text \<open>
  C5 (amended): a traversal that starts from an empty reference map, or from one whose
  indexes are the positions of insertion (as every traversal leaves it), gives two distinct
  objects two distinct indexes whatever their contents, and confuses none.  For flatten:
  the map it leaves has no key and no index twice, and every slot of the descriptor holds,
  for a graph node or Variable, a \<open>NodeDef\<close>, \<open>VariableDef\<close> or \<open>NodeRef\<close> with the index of
  the very object in that slot.  For fingerprint, whose \<open>new_ref_index\<close> counts on from the
  size of \<open>ref_index\<close>: there is a map extending \<open>new_ref_index\<close> such that every entry of the
  fingerprint carries the \<open>id\<close> and the index of the very object in its slot, and no two
  objects have the same index.
\<close>

theorem distinct_objects_distinct_indexes:
  "(flatten fuel h node with_paths rv ri ro = Some (Inr (gd, st, r)) \<longrightarrow>
      dense (case ri of None \<Rightarrow> [] | Some r0 \<Rightarrow> r0) \<longrightarrow>
      slots_agree h r node gd \<and> distinct (map fst r) \<and> distinct (map snd r) \<and>
      (\<exists>n. r = (case ri of None \<Rightarrow> [] | Some r0 \<Rightarrow> r0) @ n) \<and>
      (\<forall>a b i. map_of r a = Some i \<longrightarrow> map_of r b = Some i \<longrightarrow> a = b))
   \<and> (fingerprint fuel h node ri nri = Some (Inr fp) \<longrightarrow>
      dense (case ri of None \<Rightarrow> [] | Some r0 \<Rightarrow> r0) \<longrightarrow>
      dense_from (length (case ri of None \<Rightarrow> [] | Some r0 \<Rightarrow> r0))
        (case nri of None \<Rightarrow> [] | Some m0 \<Rightarrow> m0) \<longrightarrow>
      (\<exists>n. fp_agree h (case ri of None \<Rightarrow> [] | Some r0 \<Rightarrow> r0)
              ((case nri of None \<Rightarrow> [] | Some m0 \<Rightarrow> m0) @ n) node fp \<and>
           (\<forall>a b i. look (case ri of None \<Rightarrow> [] | Some r0 \<Rightarrow> r0)
                       ((case nri of None \<Rightarrow> [] | Some m0 \<Rightarrow> m0) @ n) a = Some i \<longrightarrow>
                    look (case ri of None \<Rightarrow> [] | Some r0 \<Rightarrow> r0)
                       ((case nri of None \<Rightarrow> [] | Some m0 \<Rightarrow> m0) @ n) b = Some i \<longrightarrow>
                    a = b)))"
proof (rule conjI; intro impI)
  assume f: "flatten fuel h node with_paths rv ri ro = Some (Inr (gd, st, r))"
    and d0: "dense (case ri of None \<Rightarrow> [] | Some r0 \<Rightarrow> r0)"
  from flatten_InrD[OF f] obtain impl leaves paths where
    impl: "get_node_impl h node = Some impl" and
    g: "graph_flatten fuel h node impl (if with_paths then Some [] else None)
          (case ri of None \<Rightarrow> [] | Some r \<Rightarrow> r) ro []
          (if with_paths then Some [] else None) rv = Some (Inr (gd, r, leaves, paths))"
    by blast
  from slot_inv(1)[of fuel h ro rv node
         "(impl, if with_paths then Some [] else None, case ri of None \<Rightarrow> [] | Some r \<Rightarrow> r,
           [], if with_paths then Some [] else None, gd, r, leaves, paths)"] g impl d0
  have d: "dense r" and a: "slots_agree h r node gd"
    and n: "\<exists>n. r = (case ri of None \<Rightarrow> [] | Some r0 \<Rightarrow> r0) @ n"
    unfolding slot_inv_node_def by auto
  from d have "distinct (map fst r)" "distinct (map snd r)"
    by (simp_all add: dense_def distinct_map inj_on_def)
  moreover have "\<forall>a b i. map_of r a = Some i \<longrightarrow> map_of r b = Some i \<longrightarrow> a = b"
    using dense_inj[OF d] by blast
  ultimately show "slots_agree h r node gd \<and> distinct (map fst r) \<and> distinct (map snd r) \<and>
      (\<exists>n. r = (case ri of None \<Rightarrow> [] | Some r0 \<Rightarrow> r0) @ n) \<and>
      (\<forall>a b i. map_of r a = Some i \<longrightarrow> map_of r b = Some i \<longrightarrow> a = b)"
    using a n by simp
next
  let ?ri = "case ri of None \<Rightarrow> [] | Some r0 \<Rightarrow> r0"
  let ?m = "case nri of None \<Rightarrow> [] | Some m0 \<Rightarrow> m0"
  assume f: "fingerprint fuel h node ri nri = Some (Inr fp)"
    and d0: "dense ?ri" and d1: "dense_from (length ?ri) ?m"
  from fingerprint_InrD[OF f] obtain impl m' nx' where
    impl: "get_node_impl h node = Some impl" and
    g: "graph_fingerprint fuel h node impl ?ri ?m (int (length ?ri) + int (length ?m))
          = Some (Inr (fp, m', nx'))"
    by blast
  from fp_inv(1)[of fuel h ?ri node
         "(impl, ?m, int (length ?ri) + int (length ?m), fp, m', nx')"] g impl d1
  obtain n where n: "m' = ?m @ n" and d: "dense_from (length ?ri) m'"
    and a: "fp_agree h ?ri m' node fp"
    unfolding fp_inv_node_def by auto
  have "\<forall>a b i. look ?ri m' a = Some i \<longrightarrow> look ?ri m' b = Some i \<longrightarrow> a = b"
    using look_inj[OF d0 d] by blast
  with a show "\<exists>n. fp_agree h ?ri (?m @ n) node fp \<and>
           (\<forall>a b i. look ?ri (?m @ n) a = Some i \<longrightarrow> look ?ri (?m @ n) b = Some i \<longrightarrow> a = b)"
    unfolding n by blast
qed

theorem distinct_objects_distinct_indexes_witness:
  "flatten (Suc (Suc 0)) twin_heap (Ref 0) False False None None
     = Some (Inr (NodeDef (GraphType ''M'') 0 None
                    [(''p'', VariableDef (VariableType ''Param'') 1 None []),
                     (''q'', VariableDef (VariableType ''Param'') 2 None [])] ''M'',
                  LeafList [Leaf (Array [1, 2]), Leaf (Array [1, 2])],
                  [(Ref 0, 0), (Ref 1, 1), (Ref 2, 2)]))
   \<and> fingerprint (Suc (Suc 0)) twin_heap (Ref 0) None None
     = Some (Inr (FpNode (Some 0) (GraphType ''M'') 0
                    [FpVar ''p'' 1 (VariableType ''Param'') 1 [],
                     FpVar ''q'' 2 (VariableType ''Param'') 2 []] ''M''))
   \<and> dense [] \<and> dense_from 0 []
   \<and> twin_heap ! 1 = twin_heap ! 2
   \<and> slots_agree twin_heap [(Ref 0, 0), (Ref 1, 1), (Ref 2, 2)] (Ref 0)
       (NodeDef (GraphType ''M'') 0 None
          [(''p'', VariableDef (VariableType ''Param'') 1 None []),
           (''q'', VariableDef (VariableType ''Param'') 2 None [])] ''M'')
   \<and> (\<exists>n. fp_agree twin_heap [] n (Ref 0)
              (FpNode (Some 0) (GraphType ''M'') 0
                 [FpVar ''p'' 1 (VariableType ''Param'') 1 [],
                  FpVar ''q'' 2 (VariableType ''Param'') 2 []] ''M''))"
  using distinct_objects_distinct_indexes[of "Suc (Suc 0)" twin_heap "Ref 0" False False None
          None "NodeDef (GraphType ''M'') 0 None
                    [(''p'', VariableDef (VariableType ''Param'') 1 None []),
                     (''q'', VariableDef (VariableType ''Param'') 2 None [])] ''M''"
          "LeafList [Leaf (Array [1, 2]), Leaf (Array [1, 2])]"
          "[(Ref 0, 0), (Ref 1, 1), (Ref 2, 2)]" None
          "FpNode (Some 0) (GraphType ''M'') 0
                    [FpVar ''p'' 1 (VariableType ''Param'') 1 [],
                     FpVar ''q'' 2 (VariableType ''Param'') 2 []] ''M''"]
  by (simp add: flatten_def fingerprint_def twin_heap_def dense_def dense_from_def) blast

section \<open>Round trip\<close>



section \<open>Sharing\<close>




section \<open>Cycles\<close>



section \<open>Fingerprint stability\<close>

text \<open>
  C6 (as stated): two fingerprints of a graph are equal if and only if shape, identities
  and metadata are unchanged; a changed metadata of a Variable changes the fingerprint.
  An object that is already in the \<open>ref_index\<close> given to fingerprint is fingerprinted by its
  \<open>id\<close>, type and index only: with the Variable \<open>p\<close> in \<open>ref_index\<close>, the fingerprint of the
  node is the same before and after the metadata of \<open>p\<close> changed.
\<close>

theorem supplied_ref_index_hides_metadata:
  "fingerprint (Suc (Suc 0)) value_heap (Ref 0) (Some [(Ref 1, 0)]) None
     = Some (Inr (FpNode (Some 0) (GraphType ''M'') 1
                    [FpVarRef ''p'' 1 (VariableType ''Param'') 0] ''M''))
   \<and> fingerprint (Suc (Suc 0)) new_metadata_heap (Ref 0) (Some [(Ref 1, 0)]) None
     = Some (Inr (FpNode (Some 0) (GraphType ''M'') 1
                    [FpVarRef ''p'' 1 (VariableType ''Param'') 0] ''M''))
   \<and> var_metadata value_heap (Ref 1) = [(''tag'', 7)]
   \<and> var_metadata new_metadata_heap (Ref 1) = [(''tag'', 8)]"
  by (simp add: fingerprint_def value_heap_def new_metadata_heap_def)

text \<open>
  C6 (amended): fingerprint returns once the recursion budget exceeds the bound.  When
  the node and every value found below it look the same in two heaps (same kind, type,
  children with their identities, static values and metadata; the values that the
  Variables hold may differ), the two fingerprints are equal, whatever maps are supplied.
  And when no map is supplied, two traversals that return the same fingerprint saw a
  node that looks the same, with everything below it, in the two heaps: an attribute that
  was added or removed, or a Variable's metadata that changed, gives another fingerprint.
\<close>

theorem fingerprint_stability:
  "fingerprint (Suc (weight node + unvisited h1 ((case ri of None \<Rightarrow> [] | Some r \<Rightarrow> r) @
                  (case nri of None \<Rightarrow> [] | Some r \<Rightarrow> r)) + k)) h1 node ri nri \<noteq> None
   \<and> ((\<forall>p v. at_path h1 node p v \<longrightarrow> view h1 v = view h2 v) \<longrightarrow>
      fingerprint fuel h1 node ri nri = fingerprint fuel h2 node ri nri)
   \<and> (fingerprint fuel1 h1 node None None = Some (Inr fp) \<longrightarrow>
      fingerprint fuel2 h2 node None None = Some (Inr fp) \<longrightarrow>
      (\<forall>p v. at_path h1 node p v \<longrightarrow> view h1 v = view h2 v))"
proof (intro conjI)
  show "fingerprint (Suc (weight node + unvisited h1 ((case ri of None \<Rightarrow> [] | Some r \<Rightarrow> r) @
                  (case nri of None \<Rightarrow> [] | Some r \<Rightarrow> r)) + k)) h1 node ri nri \<noteq> None"
    by (rule fingerprint_returns) simp
  show "(\<forall>p v. at_path h1 node p v \<longrightarrow> view h1 v = view h2 v) \<longrightarrow>
      fingerprint fuel h1 node ri nri = fingerprint fuel h2 node ri nri"
    using fingerprint_stable by blast
  show "fingerprint fuel1 h1 node None None = Some (Inr fp) \<longrightarrow>
      fingerprint fuel2 h2 node None None = Some (Inr fp) \<longrightarrow>
      (\<forall>p v. at_path h1 node p v \<longrightarrow> view h1 v = view h2 v)"
    using fingerprint_sensitive by blast
qed

theorem fingerprint_stability_witness:
  "fingerprint (Suc (Suc 0)) value_heap (Ref 0) None None
     = Some (Inr (FpNode (Some 0) (GraphType ''M'') 0
                    [FpVar ''p'' 1 (VariableType ''Param'') 1 [(''tag'', 7)]] ''M''))
   \<and> fingerprint (Suc (Suc 0)) new_value_heap (Ref 0) None None
     = fingerprint (Suc (Suc 0)) value_heap (Ref 0) None None
   \<and> raw_value value_heap (Ref 1) \<noteq> raw_value new_value_heap (Ref 1)
   \<and> at_path value_heap (Ref 0) [''p''] (Ref 1)
   \<and> view value_heap (Ref 1) = view new_value_heap (Ref 1)
   \<and> fingerprint (Suc (Suc 0)) new_metadata_heap (Ref 0) None None
     \<noteq> fingerprint (Suc (Suc 0)) value_heap (Ref 0) None None
   \<and> view value_heap (Ref 1) \<noteq> view new_metadata_heap (Ref 1)
   \<and> fingerprint (Suc (Suc 0)) new_attribute_heap (Ref 0) None None
     \<noteq> fingerprint (Suc (Suc 0)) value_heap (Ref 0) None None
   \<and> view value_heap (Ref 0) \<noteq> view new_attribute_heap (Ref 0)"
proof -
  have c: "\<forall>p v. at_path value_heap (Ref 0) p v \<longrightarrow> view value_heap v = view new_value_heap v"
  proof (intro allI impI)
    fix p v assume a: "at_path value_heap (Ref 0) p v"
    show "view value_heap v = view new_value_heap v"
    proof (cases p)
      case Nil
      with a show ?thesis by (auto simp: view_def value_heap_def new_value_heap_def)
    next
      case (Cons k ks)
      show ?thesis
      proof (cases ks)
        case Nil
        with a Cons show ?thesis by (auto simp: view_def value_heap_def new_value_heap_def)
      next
        case Cons': (Cons k' ks')
        with a Cons show ?thesis by (auto simp: value_heap_def)
      qed
    qed
  qed
  from fingerprint_stability[THEN conjunct2, THEN conjunct1, rule_format, OF c[rule_format]]
  have e: "fingerprint (Suc (Suc 0)) new_value_heap (Ref 0) None None
             = fingerprint (Suc (Suc 0)) value_heap (Ref 0) None None" by simp
  have f: "fingerprint (Suc (Suc 0)) value_heap (Ref 0) None None
     = Some (Inr (FpNode (Some 0) (GraphType ''M'') 0
                    [FpVar ''p'' 1 (VariableType ''Param'') 1 [(''tag'', 7)]] ''M''))"
    by (simp add: fingerprint_def value_heap_def)
  from e f have f2: "fingerprint (Suc (Suc 0)) new_value_heap (Ref 0) None None
     = Some (Inr (FpNode (Some 0) (GraphType ''M'') 0
                    [FpVar ''p'' 1 (VariableType ''Param'') 1 [(''tag'', 7)]] ''M''))"
    by simp
  have p: "at_path value_heap (Ref 0) [''p''] (Ref 1)" by (simp add: value_heap_def)
  from fingerprint_stability[THEN conjunct2, THEN conjunct2, rule_format, OF f f2 p]
  have v: "view value_heap (Ref 1) = view new_value_heap (Ref 1)" .
  have r: "raw_value value_heap (Ref 1) \<noteq> raw_value new_value_heap (Ref 1)"
    by (simp add: value_heap_def new_value_heap_def)
  have m: "fingerprint (Suc (Suc 0)) new_metadata_heap (Ref 0) None None
             \<noteq> fingerprint (Suc (Suc 0)) value_heap (Ref 0) None None"
    "view value_heap (Ref 1) \<noteq> view new_metadata_heap (Ref 1)"
    by (simp_all add: fingerprint_def view_def value_heap_def new_metadata_heap_def)
  have a: "fingerprint (Suc (Suc 0)) new_attribute_heap (Ref 0) None None
             \<noteq> fingerprint (Suc (Suc 0)) value_heap (Ref 0) None None"
    "view value_heap (Ref 0) \<noteq> view new_attribute_heap (Ref 0)"
    by (simp_all add: fingerprint_def view_def value_heap_def new_attribute_heap_def)
  from f e r p v m a show ?thesis by simp
qed

end
